theory Spec2Isabelle
  imports Main "HOL-Library.Word"
begin

unbundle bit_operations_syntax

section \<open>Platform parameters\<close>

text \<open>
  The allocator of \<^verbatim>\<open>src/allocator.cpp\<close> works on raw memory through
  \<^verbatim>\<open>uintptr_t\<close> arithmetic.  The embedding fixes the LP64 instance of the
  platform-dependent constants: \<^verbatim>\<open>size_type = uintptr_t\<close> is a 64-bit word,
  \<^verbatim>\<open>sizeof(size_type) = sizeof(void*) = 8\<close>, and
  \<^verbatim>\<open>max_alignment = alignment_of<maximum_aligned_type>::value = 16\<close>
  (the alignment of \<^verbatim>\<open>long double\<close>).  Addresses and sizes are the same
  type, as in the source, and every operation on them wraps modulo \<open>2 ^ 64\<close>.
\<close>

type_synonym size_type = "64 word"
type_synonym addr = "64 word"

text \<open>
  Memory is a total map from byte addresses to word-sized cells: the cell at address
  \<open>a\<close> holds the \<^verbatim>\<open>size_type\<close> or pointer object stored at \<open>a\<close>.  All accesses
  of the allocator are to word-sized objects; accesses are not checked, so reading or
  writing through a wild pointer is an ordinary read or write of the map.
\<close>

type_synonym memory = "addr \<Rightarrow> size_type"

definition sizeof_size_type :: size_type where
  "sizeof_size_type = 8"

definition max_alignment :: size_type where
  "max_alignment = 16"

definition nullptr :: addr where
  "nullptr = 0"

section \<open>struct DlAllocator::Header\<close>

definition minimum_alloc_size :: size_type where
  "minimum_alloc_size = 2 * sizeof_size_type"

definition InUse :: size_type where
  "InUse = 1"

text \<open>\<^verbatim>\<open>sizeof(Header) == 4 * sizeof(void*)\<close>, by the constructor's static assertion.\<close>

definition sizeof_Header :: size_type where
  "sizeof_Header = 4 * sizeof_size_type"

text \<open>The addresses of the four fields of the header at address \<open>h\<close>.\<close>

definition prevSize :: "addr \<Rightarrow> addr" where
  "prevSize h = h"

definition thisSize :: "addr \<Rightarrow> addr" where
  "thisSize h = h + sizeof_size_type"

definition nextFree :: "addr \<Rightarrow> addr" where
  "nextFree h = h + 2 * sizeof_size_type"

definition prevFree :: "addr \<Rightarrow> addr" where
  "prevFree h = h + 3 * sizeof_size_type"

definition payloadToHeader :: "addr \<Rightarrow> addr" where
  "payloadToHeader payload = payload - 2 * sizeof_size_type"

definition toPayload :: "addr \<Rightarrow> addr" where
  "toPayload h = h + 2 * sizeof_size_type"

definition size_Header :: "memory \<Rightarrow> addr \<Rightarrow> size_type" where
  "size_Header m h = m (thisSize h) AND NOT InUse"

definition previousSize :: "memory \<Rightarrow> addr \<Rightarrow> size_type" where
  "previousSize m h = m (prevSize h) AND NOT InUse"

definition next_Header :: "memory \<Rightarrow> addr \<Rightarrow> addr" where
  "next_Header m h = h + size_Header m h"

text \<open>
  \<^verbatim>\<open>setSize(size, used)\<close> and \<^verbatim>\<open>setSize(size, free)\<close>: the second write goes to
  the header found with the size just written.
\<close>

definition setSize_used :: "memory \<Rightarrow> addr \<Rightarrow> size_type \<Rightarrow> memory" where
  "setSize_used m h sz =
     (let m1 = m(thisSize h := sz OR InUse)
      in m1(prevSize (next_Header m1 h) := sz OR InUse))"

definition setSize_free :: "memory \<Rightarrow> addr \<Rightarrow> size_type \<Rightarrow> memory" where
  "setSize_free m h sz =
     (let m1 = m(thisSize h := sz)
      in m1(prevSize (next_Header m1 h) := sz))"

definition nextIfFree :: "memory \<Rightarrow> addr \<Rightarrow> addr" where
  "nextIfFree m h =
     (let header = next_Header m h
      in if m (thisSize header) AND InUse \<noteq> 0 then nullptr else header)"

definition prevIfFree :: "memory \<Rightarrow> addr \<Rightarrow> addr" where
  "prevIfFree m h =
     (if m (prevSize h) AND InUse \<noteq> 0 then nullptr else h - previousSize m h)"

text \<open>
  The scan of \<^verbatim>\<open>link\<close>: \<open>iter\<close> is the address of a pointer slot (the list head or
  some header's \<^verbatim>\<open>nextFree\<close> field).  The loop need not end on a cyclic list, so
  its result is optional: \<open>None\<close> is the loop that never returns.
\<close>

partial_function (option) link_loop :: "memory \<Rightarrow> addr \<Rightarrow> addr \<Rightarrow> addr option" where
  "link_loop m h iter =
     (if m iter \<noteq> nullptr \<and> size_Header m (m iter) < size_Header m h
      then link_loop m h (nextFree (m iter))
      else Some iter)"

declare link_loop.simps [code]

definition link :: "memory \<Rightarrow> addr \<Rightarrow> addr \<Rightarrow> memory option" where
  "link m h first =
     (case link_loop m h first of
        None \<Rightarrow> None
      | Some iter \<Rightarrow>
          (let m1 = m(prevFree h := iter);
               m2 = m1(nextFree h := m1 iter);
               m3 = m2(iter := h)
           in Some (if m3 (nextFree h) \<noteq> nullptr
                    then m3(prevFree (m3 (nextFree h)) := nextFree h)
                    else m3)))"

definition unlink :: "memory \<Rightarrow> addr \<Rightarrow> memory" where
  "unlink m h =
     (let m1 = m(m (prevFree h) := m (nextFree h))
      in if m1 (nextFree h) \<noteq> nullptr
         then m1(prevFree (m1 (nextFree h)) := m1 (prevFree h))
         else m1)"

section \<open>class DlAllocator\<close>

text \<open>
  The allocator object has the one data member \<^verbatim>\<open>m_freeList\<close>; \<open>this\<close> is the
  address of that member, so \<^verbatim>\<open>m_freeList\<close> is the cell \<open>m this\<close> and
  \<^verbatim>\<open>&m_freeList\<close> is \<open>this\<close>.
\<close>

definition aligned_begin :: "addr \<Rightarrow> addr" where
  "aligned_begin begin =
     (begin + 2 * sizeof_size_type + max_alignment - 1) AND - max_alignment"

definition aligned_end :: "addr \<Rightarrow> addr" where
  "aligned_end end = (end - 2 * sizeof_size_type) AND - max_alignment"

definition DlAllocator :: "memory \<Rightarrow> addr \<Rightarrow> addr \<Rightarrow> addr \<Rightarrow> memory option" where
  "DlAllocator m this begin end =
     (let m0 = m(this := nullptr);
          begin' = aligned_begin begin;
          end' = aligned_end end
      in if end' \<le> begin' then Some m0
         else
           (let header = payloadToHeader begin';
                m1 = setSize_free m0 header (end' - begin');
                m2 = m1(prevSize header := InUse);
                m3 = m2(thisSize (next_Header m2 header) := InUse)
            in link m3 header this))"

text \<open>The chunk size needed for a request, lines 169 to 175 of \<^verbatim>\<open>allocate\<close>.\<close>

definition needed_size :: "size_type \<Rightarrow> size_type" where
  "needed_size numBytes =
     (let n1 = (if numBytes \<le> minimum_alloc_size then minimum_alloc_size else numBytes);
          n2 = n1 + 2 * sizeof_size_type
      in (n2 + max_alignment - 1) AND - max_alignment)"

text \<open>
  The search loop of \<^verbatim>\<open>allocate\<close>, from the current \<open>iter\<close>; the result is the
  returned pointer and the memory after the call.
\<close>

partial_function (option) allocate_loop ::
    "memory \<Rightarrow> addr \<Rightarrow> addr \<Rightarrow> size_type \<Rightarrow> (addr \<times> memory) option" where
  "allocate_loop m this iter numBytes =
     (if iter = nullptr then Some (nullptr, m)
      else if numBytes \<le> size_Header m iter then
        (let m1 = unlink m iter;
             remainingSize = size_Header m1 iter - numBytes
         in if sizeof_Header \<le> remainingSize then
              (let m2 = setSize_used m1 iter numBytes;
                   nxt = next_Header m2 iter;
                   m3 = setSize_free m2 nxt remainingSize
               in case link m3 nxt this of
                    None \<Rightarrow> None
                  | Some m4 \<Rightarrow> Some (toPayload iter, m4))
            else Some (toPayload iter, setSize_used m1 iter (size_Header m1 iter)))
      else allocate_loop m this (m (nextFree iter)) numBytes)"

declare allocate_loop.simps [code]

definition allocate :: "memory \<Rightarrow> addr \<Rightarrow> size_type \<Rightarrow> (addr \<times> memory) option" where
  "allocate m this numBytes = allocate_loop m this (m this) (needed_size numBytes)"

definition deallocate :: "memory \<Rightarrow> addr \<Rightarrow> addr \<Rightarrow> memory option" where
  "deallocate m this ptr =
     (let self = payloadToHeader ptr;
          chunkSize = size_Header m self;
          nextHeader = nextIfFree m self;
          m1 = (if nextHeader \<noteq> nullptr then unlink m nextHeader else m);
          chunkSize1 = (if nextHeader \<noteq> nullptr
                        then chunkSize + size_Header m1 nextHeader else chunkSize);
          prevHeader = prevIfFree m1 self;
          m2 = (if prevHeader \<noteq> nullptr then unlink m1 prevHeader else m1);
          chunkSize2 = (if prevHeader \<noteq> nullptr
                        then chunkSize1 + size_Header m2 prevHeader else chunkSize1);
          self2 = (if prevHeader \<noteq> nullptr then prevHeader else self);
          m3 = setSize_free m2 self2 chunkSize2
      in link m3 self2 this)"


section \<open>Call sequences and the free list\<close>

datatype call = Allocate size_type | Deallocate addr

text \<open>
  A run of calls on one allocator.  \<open>live\<close> holds the pointers returned by
  \<^verbatim>\<open>allocate\<close> and not yet passed to \<^verbatim>\<open>deallocate\<close>; the result lists the
  pointers returned by the \<open>Allocate\<close> calls, in order, with the final memory.  The
  result is \<open>None\<close> when a call does not return, or when \<open>Deallocate\<close> is applied
  to a pointer that is not live (the source's unchecked precondition).
\<close>

fun run :: "memory \<Rightarrow> addr \<Rightarrow> addr list \<Rightarrow> call list \<Rightarrow> (addr list \<times> memory) option" where
  "run m this live [] = Some ([], m)"
| "run m this live (Allocate n # cs) =
     (case allocate m this n of
        None \<Rightarrow> None
      | Some (p, m') \<Rightarrow>
          (case run m' this (if p = nullptr then live else p # live) cs of
             None \<Rightarrow> None
           | Some (ps, m'') \<Rightarrow> Some (p # ps, m'')))"
| "run m this live (Deallocate p # cs) =
     (if p \<in> set live
      then (case deallocate m this p of
              None \<Rightarrow> None
            | Some m' \<Rightarrow> run m' this (remove1 p live) cs)
      else None)"

text \<open>
  \<open>free_list m p fl\<close>: following \<^verbatim>\<open>nextFree\<close> from the pointer \<open>p\<close> visits exactly
  the headers \<open>fl\<close>, in this order, and then reaches the null pointer.
\<close>

fun free_list :: "memory \<Rightarrow> addr \<Rightarrow> addr list \<Rightarrow> bool" where
  "free_list m p [] = (p = nullptr)"
| "free_list m p (h # hs) = (p = h \<and> h \<noteq> nullptr \<and> free_list m (m (nextFree h)) hs)"

text \<open>
  The bytes between a payload address and the header of the next chunk: what the caller
  of \<^verbatim>\<open>allocate\<close> may use of the block at \<open>p\<close>.
\<close>

definition usable_bytes :: "memory \<Rightarrow> addr \<Rightarrow> size_type" where
  "usable_bytes m p = next_Header m (payloadToHeader p) - p"

text \<open>
  The chunks that tile the region from the header \<open>h\<close> to the end sentinel \<open>hi\<close>:
  each chunk's masked \<^verbatim>\<open>thisSize\<close> is the distance to the next header.  The result
  is the list of these sizes, or \<open>None\<close> when the headers do not lead to \<open>hi\<close>
  (a size of zero, or a chunk reaching beyond \<open>hi\<close>).
\<close>

function chunk_sizes :: "memory \<Rightarrow> addr \<Rightarrow> addr \<Rightarrow> size_type list option" where
  "chunk_sizes m h hi =
     (if h = hi then Some []
      else (let s = size_Header m h
            in if s = 0 \<or> unat hi < unat h + unat s then None
               else map_option ((#) s) (chunk_sizes m (h + s) hi)))"
  by pat_completeness auto
termination
proof (relation "measure (\<lambda>(m, h, hi). unat hi - unat h)", goal_cases)
  case 1
  show ?case by simp
next
  case (2 m h hi s)
  then have "s \<noteq> 0" and le: "unat h + unat s \<le> unat hi"
    by simp_all
  then have "0 < unat s"
    by (simp add: unat_gt_0)
  moreover have "unat (h + s) = unat h + unat s"
    using le unsigned_less [of hi, where ?'a = nat] by (simp add: unat_add_lem [THEN iffD1])
  ultimately show ?case
    using le by simp
qed

declare chunk_sizes.simps [simp del]

text \<open>The memory that holds zero everywhere, and the allocator built on it over the
  96 bytes from address 8192, with its \<^verbatim>\<open>m_freeList\<close> at address 4096.\<close>

definition zero_memory :: memory where
  "zero_memory = (\<lambda>_. 0)"

definition fresh_64 :: memory where
  "fresh_64 = zero_memory(4096 := 8192, 8200 := 64, 8256 := 64, 8192 := 1, 8264 := 1,
     8216 := 4096, 8208 := 0)"

text \<open>
  The memories reached by the call sequences studied below, cell by cell.  The sequences
  \<open>heap_a\<close> start from \<open>fresh_64\<close>; \<open>heap_b\<close> is built over the 112 bytes and
  \<open>heap_e\<close> over the 128 bytes from address 8192; \<open>heap_c\<close> and \<open>heap_d\<close> are
  built over the 56 bytes from 8192, a buffer that holds old data in its last words.
\<close>

definition heap_a_1 :: memory where
  "heap_a_1 = zero_memory(4096 := 8208, 8192 := 1, 8200 := 17, 8208 := 17, 8216 := 48,
     8232 := 4096, 8256 := 48, 8264 := 1)"

definition heap_a_2 :: memory where
  "heap_a_2 = zero_memory(8192 := 1, 8200 := 17, 8208 := 17, 8216 := 49, 8232 := 4096,
     8256 := 49, 8264 := 1)"

definition heap_a_3 :: memory where
  "heap_a_3 = zero_memory(4096 := 8192, 8192 := 1, 8200 := 16, 8216 := 4096,
     8232 := 4096, 8256 := 49, 8264 := 1)"

definition heap_b_0 :: memory where
  "heap_b_0 = zero_memory(4096 := 8192, 8192 := 1, 8200 := 80, 8216 := 4096, 8272 := 80,
     8280 := 1)"

definition heap_b_1 :: memory where
  "heap_b_1 = zero_memory(4096 := 8224, 8192 := 1, 8200 := 33, 8216 := 4096, 8224 := 33,
     8232 := 48, 8248 := 4096, 8272 := 48, 8280 := 1)"

definition heap_b_2 :: memory where
  "heap_b_2 = zero_memory(4096 := 8224, 8192 := 1, 8200 := 33, 8216 := 4096, 8224 := 1,
     8232 := 48, 8248 := 4096, 8272 := 48, 8280 := 1)"

definition heap_b_3 :: memory where
  "heap_b_3 = zero_memory(4096 := 8192, 8192 := 1, 8200 := 80, 8216 := 4096, 8224 := 1,
     8232 := 48, 8248 := 4096, 8272 := 80, 8280 := 1)"

definition heap_b_4 :: memory where
  "heap_b_4 = zero_memory(4096 := 8240, 8192 := 1, 8200 := 49, 8216 := 4096, 8224 := 1,
     8232 := 48, 8240 := 49, 8248 := 32, 8264 := 4096, 8272 := 32, 8280 := 1)"

definition heap_b_5 :: memory where
  "heap_b_5 = zero_memory(4096 := 8240, 8192 := 1, 8200 := 49, 8216 := 4096, 8224 := 1,
     8232 := 48, 8248 := 8256, 8256 := 8224, 8264 := 4096, 8272 := 48, 8280 := 1)"

definition heap_c_init :: memory where
  "heap_c_init = zero_memory(8224 := 8232, 8232 := 4096)"

definition heap_c_0 :: memory where
  "heap_c_0 = zero_memory(4096 := 8192, 8192 := 1, 8200 := 16, 8216 := 4096,
     8224 := 8232, 8232 := 4096)"

definition heap_c_1 :: memory where
  "heap_c_1 = zero_memory(8192 := 1, 8200 := 17, 8208 := 17, 8216 := 4096, 8224 := 8232,
     8232 := 4096)"

definition heap_c_2 :: memory where
  "heap_c_2 = zero_memory(4096 := 8232, 8192 := 1, 8200 := 4112, 8216 := 8248,
     8224 := 8232, 8232 := 4096, 8248 := 8192, 8256 := 4096, 12304 := 4112)"

definition heap_c_3 :: memory where
  "heap_c_3 = zero_memory(4096 := 8192, 8192 := 1, 8200 := 4112, 8216 := 4096,
     8224 := 8232, 8232 := 1, 8240 := 1, 8248 := 8192, 8256 := 4096, 12304 := 4112)"

definition heap_d_init :: memory where
  "heap_d_init = zero_memory(8224 := 8232, 8232 := 4096, 8240 := 1048576)"

definition heap_d_0 :: memory where
  "heap_d_0 = zero_memory(4096 := 8192, 8192 := 1, 8200 := 16, 8216 := 4096,
     8224 := 8232, 8232 := 4096, 8240 := 1048576)"

definition heap_d_1 :: memory where
  "heap_d_1 = zero_memory(8192 := 1, 8200 := 17, 8208 := 17, 8216 := 4096, 8224 := 8232,
     8232 := 4096, 8240 := 1048576)"

definition heap_d_2 :: memory where
  "heap_d_2 = zero_memory(4096 := 8192, 8192 := 1, 8200 := 4112, 8208 := 8232,
     8216 := 4096, 8224 := 8232, 8232 := 4096, 8240 := 1048576, 8256 := 8208,
     12304 := 4112)"

definition heap_d_3 :: memory where
  "heap_d_3 = zero_memory(4096 := 8192, 8192 := 1, 8200 := 4112, 8208 := 13256,
     8216 := 4096, 8224 := 8232, 8232 := 4096, 8240 := 5025, 8256 := 8208, 12304 := 4112,
     13256 := 5025, 13264 := 1043552, 13280 := 8208, 1056808 := 1043552)"

definition heap_e_0 :: memory where
  "heap_e_0 = zero_memory(4096 := 8192, 8192 := 1, 8200 := 96, 8216 := 4096, 8288 := 96,
     8296 := 1)"

definition heap_e_1 :: memory where
  "heap_e_1 = zero_memory(4096 := 8224, 8192 := 1, 8200 := 33, 8216 := 4096, 8224 := 33,
     8232 := 64, 8248 := 4096, 8288 := 64, 8296 := 1)"

definition heap_e_2 :: memory where
  "heap_e_2 = zero_memory(4096 := 8256, 8192 := 1, 8200 := 33, 8216 := 4096, 8224 := 33,
     8232 := 33, 8248 := 4096, 8256 := 33, 8264 := 32, 8280 := 4096, 8288 := 32,
     8296 := 1)"

definition heap_e_3 :: memory where
  "heap_e_3 = zero_memory(4096 := 8192, 8192 := 1, 8200 := 32, 8208 := 8256,
     8216 := 4096, 8224 := 32, 8232 := 33, 8248 := 4096, 8256 := 33, 8264 := 32,
     8280 := 8208, 8288 := 32, 8296 := 1)"

definition heap_e_4 :: memory where
  "heap_e_4 = zero_memory(4096 := 8192, 8192 := 1, 8200 := 96, 8216 := 4096, 8224 := 32,
     8232 := 33, 8248 := 4096, 8256 := 33, 8264 := 32, 8280 := 8208, 8288 := 96,
     8296 := 1)"

text \<open>
  The memory reached from \<open>fresh_64\<close> by \<^verbatim>\<open>allocate(2^64 - 16)\<close>, which leaves
  \<open>fresh_64\<close> as it is, and \<^verbatim>\<open>deallocate\<close> of the pointer it returned.
\<close>

definition heap_f_2 :: memory where
  "heap_f_2 = zero_memory(4096 := 8192, 8192 := 1, 8200 := 64, 8208 := 8192, 8216 := 8208,
     8256 := 64, 8264 := 1)"

section \<open>The heap as a list of chunks\<close>

text \<open>
  The invariant of the allocator relates the memory to two lists of natural numbers: the
  chunks that tile the region, and the entries of the free list.  Addresses and sizes are
  natural numbers here, and \<open>cell a\<close> is the machine word of the address \<open>a\<close>.
\<close>

definition cell :: "nat \<Rightarrow> addr" where
  "cell a = of_nat a"

text \<open>
  The free list as \<^verbatim>\<open>link\<close> and \<^verbatim>\<open>unlink\<close> see it.  \<open>dlist m slot as\<close>: the pointer
  stored at \<open>slot\<close> starts a chain of the headers \<open>as\<close> that ends with a null pointer,
  where \<^verbatim>\<open>nextFree\<close> of a header (at offset 16) points to the next header and
  \<^verbatim>\<open>prevFree\<close> (at offset 24) points back to the slot that holds the header's own
  address, which is \<^verbatim>\<open>m_freeList\<close> for the first header and the \<^verbatim>\<open>nextFree\<close> field
  of the predecessor for the others.  \<open>dcells\<close> lists the words of memory such a chain
  occupies, and \<open>last_slot\<close> is the slot that holds the final null pointer.
\<close>

fun dlist :: "memory \<Rightarrow> addr \<Rightarrow> nat list \<Rightarrow> bool" where
  "dlist m slot [] = (m slot = nullptr)"
| "dlist m slot (a # as) =
     (m slot = cell a \<and> m (cell (a + 24)) = slot \<and> dlist m (cell (a + 16)) as)"

fun dcells :: "addr \<Rightarrow> nat list \<Rightarrow> addr list" where
  "dcells slot [] = [slot]"
| "dcells slot (a # as) = slot # cell (a + 24) # dcells (cell (a + 16)) as"

fun last_slot :: "addr \<Rightarrow> nat list \<Rightarrow> addr" where
  "last_slot slot [] = slot"
| "last_slot slot (a # as) = last_slot (cell (a + 16)) as"

text \<open>
  The four stores of \<^verbatim>\<open>link\<close> after its loop has stopped at the slot \<open>iter\<close>
  (lines 129 to 133), and the body of the loop of \<^verbatim>\<open>allocate\<close> for the chunk \<open>iter\<close>
  that passed the test of line 181 (lines 183 to 200).  \<open>link\<close> and \<open>allocate\<close> are
  proved equal to their loops followed by these.
\<close>

definition link_writes :: "memory \<Rightarrow> addr \<Rightarrow> addr \<Rightarrow> memory" where
  "link_writes m h iter =
     (let m1 = m(prevFree h := iter);
          m2 = m1(nextFree h := m1 iter);
          m3 = m2(iter := h)
      in if m3 (nextFree h) \<noteq> nullptr
         then m3(prevFree (m3 (nextFree h)) := nextFree h)
         else m3)"

definition allocate_chunk :: "memory \<Rightarrow> addr \<Rightarrow> addr \<Rightarrow> size_type \<Rightarrow> (addr \<times> memory) option" where
  "allocate_chunk m this iter numBytes =
     (let m1 = unlink m iter;
          remainingSize = size_Header m1 iter - numBytes
      in if sizeof_Header \<le> remainingSize then
           (let m2 = setSize_used m1 iter numBytes;
                nxt = next_Header m2 iter;
                m3 = setSize_free m2 nxt remainingSize
            in case link m3 nxt this of
                 None \<Rightarrow> None
               | Some m4 \<Rightarrow> Some (toPayload iter, m4))
         else Some (toPayload iter, setSize_used m1 iter (size_Header m1 iter)))"

text \<open>
  A chunk is the address of its header, its size and whether it is in use.
  \<open>chain lo cs hi\<close>: the chunks \<open>cs\<close> tile the addresses from \<open>lo\<close> to \<open>hi\<close> without
  gap or overlap, each with room for a header and a size that is a multiple of the
  alignment.  \<open>tag s u\<close> is the word a boundary tag holds for size \<open>s\<close> and in-use bit
  \<open>u\<close>, and \<open>tags_ok\<close> says that the \<^verbatim>\<open>thisSize\<close> of every chunk and the
  \<^verbatim>\<open>prevSize\<close> of its successor hold the chunk's tag.  \<open>frees\<close> selects the free
  chunks.
\<close>

type_synonym chunk = "nat \<times> nat \<times> bool"

fun chain :: "nat \<Rightarrow> chunk list \<Rightarrow> nat \<Rightarrow> bool" where
  "chain a [] hi = (a = hi)"
| "chain a ((a', s, u) # cs) hi = (a' = a \<and> 32 \<le> s \<and> 16 dvd s \<and> chain (a + s) cs hi)"

definition tag :: "nat \<Rightarrow> bool \<Rightarrow> size_type" where
  "tag s u = cell (if u then Suc s else s)"

definition tags_ok :: "memory \<Rightarrow> chunk list \<Rightarrow> bool" where
  "tags_ok m cs =
     (\<forall>(a, s, u)\<in>set cs. m (cell (a + 8)) = tag s u \<and> m (cell (a + s)) = tag s u)"

fun frees :: "chunk list \<Rightarrow> (nat \<times> nat) list" where
  "frees [] = []"
| "frees ((a, s, u) # cs) = (if u then frees cs else (a, s) # frees cs)"

text \<open>
  \<open>layout\<close>: the first header is at \<open>lo\<close>, the end sentinel at \<open>hi\<close>, all of it fits
  the address space, and the word \<^verbatim>\<open>m_freeList\<close> lies outside.
\<close>

definition layout :: "nat \<Rightarrow> nat \<Rightarrow> chunk list \<Rightarrow> addr \<Rightarrow> bool" where
  "layout lo hi cs this =
     (0 < lo \<and> 16 dvd lo \<and> hi + 16 < 2 ^ 64 \<and> chain lo cs hi \<and>
      (unat this < lo \<or> hi + 16 \<le> unat this))"

text \<open>
  \<open>ins x fl\<close> is the place \<^verbatim>\<open>link\<close> gives a chunk in the sorted free list: before the
  first entry that is not smaller.
\<close>

definition ins :: "nat \<times> nat \<Rightarrow> (nat \<times> nat) list \<Rightarrow> (nat \<times> nat) list" where
  "ins x fl = takeWhile (\<lambda>y. snd y < snd x) fl @ x # dropWhile (\<lambda>y. snd y < snd x) fl"

text \<open>
  \<open>heap_rel\<close> holds between the calls and also inside them, while a chunk is unlinked:
  the chunks \<open>cs\<close> tile the region and carry their tags, both ends are sealed by the
  in-use bit, and the free list holds the entries \<open>fl\<close> (address and size), each a free
  chunk, none twice, in order of size.  \<open>heap_inv\<close> is the invariant between calls: in
  addition every free chunk is in the free list.
\<close>

definition heap_rel ::
    "memory \<Rightarrow> addr \<Rightarrow> nat \<Rightarrow> nat \<Rightarrow> chunk list \<Rightarrow> (nat \<times> nat) list \<Rightarrow> bool" where
  "heap_rel m this lo hi cs fl =
     (layout lo hi cs this \<and> tags_ok m cs \<and>
      m (cell lo) = InUse \<and> m (cell (hi + 8)) = InUse \<and>
      dlist m this (map fst fl) \<and> distinct fl \<and> set fl \<subseteq> set (frees cs) \<and>
      sorted (map snd fl))"

definition heap_inv ::
    "memory \<Rightarrow> addr \<Rightarrow> nat \<Rightarrow> nat \<Rightarrow> chunk list \<Rightarrow> (nat \<times> nat) list \<Rightarrow> bool" where
  "heap_inv m this lo hi cs fl = (heap_rel m this lo hi cs fl \<and> set (frees cs) \<subseteq> set fl)"

text \<open>The needed size of a request that does not wrap, as a natural number.\<close>

definition needed_nat :: "size_type \<Rightarrow> nat" where
  "needed_nat N = (max (unat N) 16 + 31) - (max (unat N) 16 + 31) mod 16"

text \<open>
  The neighbours of a chunk that \<^verbatim>\<open>deallocate\<close> merges with it: \<open>post\<close> are the chunks
  behind it and \<open>pre\<close> the chunks before it.  \<open>nsize\<close> and \<open>psize\<close> are the sizes the
  free neighbours add, \<open>after_next\<close> and \<open>before_prev\<close> the chunks that remain, and
  \<open>drop_entry\<close> removes a merged neighbour from the free list.
\<close>

definition next_free :: "chunk list \<Rightarrow> bool" where
  "next_free post = (case post of [] \<Rightarrow> False | (b, s2, u) # _ \<Rightarrow> \<not> u)"

definition prev_free :: "chunk list \<Rightarrow> bool" where
  "prev_free pre = (pre \<noteq> [] \<and> \<not> snd (snd (last pre)))"

definition nsize :: "chunk list \<Rightarrow> nat" where
  "nsize post = (if next_free post then fst (snd (hd post)) else 0)"

definition psize :: "chunk list \<Rightarrow> nat" where
  "psize pre = (if prev_free pre then fst (snd (last pre)) else 0)"

definition after_next :: "chunk list \<Rightarrow> chunk list" where
  "after_next post = (if next_free post then tl post else post)"

definition before_prev :: "chunk list \<Rightarrow> chunk list" where
  "before_prev pre = (if prev_free pre then butlast pre else pre)"

definition drop_entry :: "bool \<Rightarrow> nat \<times> nat \<Rightarrow> (nat \<times> nat) list \<Rightarrow> (nat \<times> nat) list" where
  "drop_entry b x fl = (if b then remove1 x fl else fl)"

text \<open>
  The live pointers of a call sequence are the payloads of the used chunks (\<open>live_ok\<close>).
  \<open>requests_ok\<close>: no request of the sequence is so large that its needed size wraps.
  \<open>frees_live\<close>: every \<^verbatim>\<open>deallocate\<close> of the sequence is given a pointer that is live
  at that moment, which is what the caller owes.
\<close>

fun useds :: "chunk list \<Rightarrow> nat list" where
  "useds [] = []"
| "useds ((a, s, u) # cs) = (if u then a # useds cs else useds cs)"

definition live_ok :: "chunk list \<Rightarrow> addr list \<Rightarrow> bool" where
  "live_ok cs live = (distinct live \<and> set live = (\<lambda>a. cell (a + 16)) ` set (useds cs))"

fun requests_ok :: "call list \<Rightarrow> bool" where
  "requests_ok [] = True"
| "requests_ok (Allocate N # cs) = (unat N + 31 < 2 ^ 64 \<and> requests_ok cs)"
| "requests_ok (Deallocate p # cs) = requests_ok cs"

fun frees_live :: "memory \<Rightarrow> addr \<Rightarrow> addr list \<Rightarrow> call list \<Rightarrow> bool" where
  "frees_live m this live [] = True"
| "frees_live m this live (Allocate n # cs) =
     (case allocate m this n of
        None \<Rightarrow> True
      | Some (p, m') \<Rightarrow> frees_live m' this (if p = nullptr then live else p # live) cs)"
| "frees_live m this live (Deallocate p # cs) =
     (p \<in> set live \<and>
      (case deallocate m this p of
         None \<Rightarrow> True
       | Some m' \<Rightarrow> frees_live m' this (remove1 p live) cs))"

section \<open>Word arithmetic\<close>

lemma and_not_mask_eq: "(x :: 'a::len word) AND NOT (mask n) = push_bit n (drop_bit n x)"
  by (rule bit_word_eqI) (auto simp add: bit_simps)

lemma unat_and_not_mask:
  "unat ((x :: 'a::len word) AND NOT (mask n)) = unat x - unat x mod 2 ^ n"
proof -
  have le: "2 ^ n * (unat x div 2 ^ n) \<le> unat x"
    by simp
  have "unat (push_bit n (drop_bit n x)) = take_bit LENGTH('a) (push_bit n (drop_bit n (unat x)))"
    by (simp only: unsigned_push_bit_eq unat_drop_bit_eq)
  also have "\<dots> = take_bit LENGTH('a) (2 ^ n * (unat x div 2 ^ n))"
    by (simp add: push_bit_eq_mult drop_bit_eq_div mult.commute)
  also have "\<dots> = 2 ^ n * (unat x div 2 ^ n)"
  proof -
    have "2 ^ n * (unat x div 2 ^ n) < 2 ^ LENGTH('a)"
      using le unsigned_less [of x, where ?'a = nat] by (rule le_less_trans)
    then show ?thesis by (simp add: take_bit_nat_eq_self_iff)
  qed
  finally show ?thesis
    by (simp only: and_not_mask_eq minus_mod_eq_mult_div)
qed

lemma neg16_not_mask: "(- 16 :: 64 word) = NOT (mask 4)"
  using minus_exp_eq_not_mask [of 4, where ?'a = "64 word"] by simp

lemma unat_and_neg16: "unat ((x :: 64 word) AND - 16) = unat x - unat x mod 16"
  using unat_and_not_mask [of x 4] by (simp only: neg16_not_mask) simp

lemma unat_plus_16: "unat (x + 16 :: 64 word) = (unat x + 16) mod 2 ^ 64"
  by (simp only: unat_word_ariths) simp

lemma unat_plus_15: "unat (x + 15 :: 64 word) = (unat x + 15) mod 2 ^ 64"
  by (simp only: unat_word_ariths) simp

lemma needed_size_eq:
  "needed_size N = ((if N \<le> 16 then 16 else N) + 16 + 15) AND - 16"
  by (simp add: needed_size_def minimum_alloc_size_def sizeof_size_type_def max_alignment_def)

lemma unat_needed_size:
  "unat (needed_size N) =
     (let n1 = max (unat N) (unat minimum_alloc_size);
          n2 = (n1 + 2 * unat sizeof_size_type) mod 2 ^ 64;
          n3 = (n2 + unat max_alignment - 1) mod 2 ^ 64
      in n3 - n3 mod unat max_alignment)"
proof -
  define n1 :: "64 word" where "n1 = (if N \<le> 16 then 16 else N)"
  have n1: "unat n1 = max (unat N) 16"
    by (simp add: n1_def word_le_nat_alt max_def)
  have "needed_size N = (n1 + 16 + 15) AND - 16"
    by (simp add: needed_size_eq n1_def)
  then have "unat (needed_size N) =
      ((unat n1 + 16) mod 2 ^ 64 + 15) mod 2 ^ 64
        - ((unat n1 + 16) mod 2 ^ 64 + 15) mod 2 ^ 64 mod 16"
    by (simp only: unat_and_neg16 unat_plus_15 unat_plus_16)
  moreover have "unat minimum_alloc_size = 16" "2 * unat sizeof_size_type = 16"
    "unat max_alignment = 16"
    by (simp_all add: minimum_alloc_size_def sizeof_size_type_def max_alignment_def)
  moreover have "k + 16 - 1 = k + 15" for k :: nat
    by simp
  ultimately show ?thesis
    by (simp only: Let_def n1)
qed

section \<open>The needed chunk size\<close>

text \<open>
  C10.  The needed chunk size is computed in arithmetic modulo \<open>2 ^ 64\<close>: the request
  is clamped to the minimum allocation size, the header overhead of
  \<open>2 * sizeof(size_type)\<close> is added, and the sum is rounded up to the maximum
  alignment, where both additions wrap.  Hence some request within
  \<open>2 * sizeof(size_type) + max_alignment\<close> of the largest word has a needed size
  smaller than the request itself.
\<close>

theorem needed_size_wraps:
  "unat (needed_size N) =
     (let n1 = max (unat N) (unat minimum_alloc_size);
          n2 = (n1 + 2 * unat sizeof_size_type) mod 2 ^ 64;
          n3 = (n2 + unat max_alignment - 1) mod 2 ^ 64
      in n3 - n3 mod unat max_alignment)
   \<and> (\<exists>N'. unat (- 1 - N') \<le> 2 * unat sizeof_size_type + unat max_alignment
          \<and> needed_size N' < N')"
proof
  show "unat (needed_size N) =
     (let n1 = max (unat N) (unat minimum_alloc_size);
          n2 = (n1 + 2 * unat sizeof_size_type) mod 2 ^ 64;
          n3 = (n2 + unat max_alignment - 1) mod 2 ^ 64
      in n3 - n3 mod unat max_alignment)"
    by (rule unat_needed_size)
next
  have "unat (- 1 - (- 1 :: 64 word)) \<le> 2 * unat sizeof_size_type + unat max_alignment"
    by simp
  moreover have "needed_size (- 1) < - 1"
    by (simp add: needed_size_eq)
  ultimately show "\<exists>N'. unat (- 1 - N') \<le> 2 * unat sizeof_size_type + unat max_alignment
      \<and> needed_size N' < N'"
    by blast
qed

section \<open>Exhaustion\<close>

lemma allocate_loop_exhausted:
  "free_list m p fl \<Longrightarrow> \<forall>h\<in>set fl. size_Header m h < n \<Longrightarrow>
     allocate_loop m this p n = Some (nullptr, m)"
proof (induction fl arbitrary: p)
  case Nil
  then show ?case by (simp add: allocate_loop.simps)
next
  case (Cons h hs)
  then show ?case by (subst allocate_loop.simps) (simp add: not_le [symmetric])
qed

lemma fresh_64_constructed: "DlAllocator zero_memory 4096 8192 8288 = Some fresh_64"
proof -
  have "DlAllocator zero_memory 4096 8192 8288 =
      Some (zero_memory(4096 := 0, 8200 := 64, 8256 := 64, 8192 := 1, 8264 := 1,
        8216 := 4096, 8208 := 0, 4096 := 8192))"
    by (simp add: DlAllocator_def aligned_begin_def aligned_end_def zero_memory_def
        sizeof_size_type_def max_alignment_def payloadToHeader_def setSize_free_def thisSize_def
        prevSize_def next_Header_def size_Header_def InUse_def link_def link_loop.simps
        nullptr_def prevFree_def nextFree_def Let_def)
  also have "\<dots> = Some fresh_64"
    by (simp add: fresh_64_def fun_eq_iff)
  finally show ?thesis .
qed

text \<open>
  When the chain of \<^verbatim>\<open>nextFree\<close> pointers from \<^verbatim>\<open>m_freeList\<close> is a list \<open>fl\<close> that
  ends with a null pointer, and every chunk of it has a size below the needed chunk size
  of the request, \<^verbatim>\<open>allocate\<close> returns the null pointer (it returns: the result is not
  \<open>None\<close>) and leaves the memory, hence the free list and every chunk header, as it
  was.
\<close>

lemma allocate_exhausted:
  "free_list m (m this) fl \<Longrightarrow> \<forall>h\<in>set fl. size_Header m h < needed_size N \<Longrightarrow>
     allocate m this N = Some (nullptr, m)"
  unfolding allocate_def by (rule allocate_loop_exhausted)

lemma allocate_exhausted_fresh_64:
  "free_list fresh_64 (fresh_64 4096) [8192]
   \<and> size_Header fresh_64 8192 < needed_size 100
   \<and> allocate fresh_64 4096 100 = Some (nullptr, fresh_64)"
proof -
  have fl: "free_list fresh_64 (fresh_64 4096) [8192]"
    by (simp add: fresh_64_def zero_memory_def nullptr_def nextFree_def sizeof_size_type_def)
  have sz: "size_Header fresh_64 8192 < needed_size 100"
    by (simp add: fresh_64_def zero_memory_def size_Header_def thisSize_def
        sizeof_size_type_def InUse_def needed_size_eq)
  from sz have "\<forall>h\<in>set [8192]. size_Header fresh_64 h < needed_size 100"
    by simp
  from allocate_exhausted [OF fl this] fl sz show ?thesis
    by simp
qed

text \<open>
  When the first chunk of the free list is too small and its \<^verbatim>\<open>nextFree\<close> points to
  the chunk itself, the loop of \<^verbatim>\<open>allocate\<close> does not end: no result is returned.
\<close>

lemma allocate_loop_self_cycle:
  assumes "allocate_loop m this p n = Some y"
  shows "\<not> (p \<noteq> nullptr \<and> size_Header m p < n \<and> m (nextFree p) = p)"
proof (rule allocate_loop.raw_induct
    [where P = "\<lambda>m this p n y. \<not> (p \<noteq> nullptr \<and> size_Header m p < n \<and> m (nextFree p) = p)",
     OF _ assms])
  fix f :: "memory \<Rightarrow> addr \<Rightarrow> addr \<Rightarrow> size_type \<Rightarrow> (addr \<times> memory) option"
    and m this iter numBytes y
  assume IH: "\<And>m this p n y. f m this p n = Some y \<Longrightarrow>
      \<not> (p \<noteq> nullptr \<and> size_Header m p < n \<and> m (nextFree p) = p)"
  assume eq: "(if iter = nullptr then Some (nullptr, m)
      else if numBytes \<le> size_Header m iter
           then let m1 = unlink m iter;
                    remainingSize = size_Header m1 iter - numBytes
                in if sizeof_Header \<le> remainingSize
                   then let m2 = setSize_used m1 iter numBytes;
                            nxt = next_Header m2 iter;
                            m3 = setSize_free m2 nxt remainingSize
                        in case link m3 nxt this of None \<Rightarrow> None
                           | Some m4 \<Rightarrow> Some (toPayload iter, m4)
                   else Some (toPayload iter, setSize_used m1 iter (size_Header m1 iter))
           else f m this (m (nextFree iter)) numBytes) = Some y"
  show "\<not> (iter \<noteq> nullptr \<and> size_Header m iter < numBytes \<and> m (nextFree iter) = iter)"
  proof
    assume c: "iter \<noteq> nullptr \<and> size_Header m iter < numBytes \<and> m (nextFree iter) = iter"
    then have "\<not> numBytes \<le> size_Header m iter" by (simp add: not_le)
    with c eq have "f m this iter numBytes = Some y" by simp
    from IH [OF this] c show False by simp
  qed
qed

lemma allocate_self_cycle:
  assumes "m this \<noteq> nullptr" "size_Header m (m this) < needed_size N"
    "m (nextFree (m this)) = m this"
  shows "allocate m this N = None"
proof (cases "allocate m this N")
  case (Some y)
  then have "allocate_loop m this (m this) (needed_size N) = Some y"
    by (simp add: allocate_def)
  from allocate_loop_self_cycle [OF this] assms show ?thesis by simp
qed simp

section \<open>Degenerate regions\<close>

lemma allocate_empty_list: "m this = nullptr \<Longrightarrow> allocate m this N = Some (nullptr, m)"
  by (simp add: allocate_def allocate_loop.simps)

lemma run_allocate_empty_list:
  "m this = nullptr \<Longrightarrow>
     run m this live (map Allocate ns) = Some (replicate (length ns) nullptr, m)"
  by (induction ns) (simp_all add: allocate_empty_list)

text \<open>
  C7.  When the aligned end is not above the aligned begin, the constructor only
  clears \<^verbatim>\<open>m_freeList\<close>: the free list is empty, and every sequence of
  \<^verbatim>\<open>allocate\<close> calls that follows returns: each call yields the null pointer,
  whatever the requested sizes, and the memory stays as the constructor left it.
\<close>

theorem degenerate_region:
  "aligned_end e \<le> aligned_begin b \<Longrightarrow>
     DlAllocator m this b e = Some (m(this := nullptr))
     \<and> free_list (m(this := nullptr)) ((m(this := nullptr)) this) []
     \<and> run (m(this := nullptr)) this [] (map Allocate ns)
           = Some (replicate (length ns) nullptr, m(this := nullptr))"
  by (simp add: DlAllocator_def Let_def run_allocate_empty_list)

theorem degenerate_region_witness:
  "aligned_end 8200 \<le> aligned_begin 8192
   \<and> DlAllocator zero_memory 4096 8192 8200 = Some (zero_memory(4096 := nullptr))
   \<and> run (zero_memory(4096 := nullptr)) 4096 [] [Allocate 1, Allocate 100, Allocate (- 1)]
         = Some ([nullptr, nullptr, nullptr], zero_memory(4096 := nullptr))"
proof -
  have h: "aligned_end 8200 \<le> aligned_begin 8192"
    by (simp add: aligned_end_def aligned_begin_def sizeof_size_type_def max_alignment_def)
  from degenerate_region [OF h, of zero_memory 4096 "[1, 100, - 1]"] h show ?thesis
    by (simp add: numeral_3_eq_3)
qed

section \<open>Evaluating call sequences\<close>

lemmas eval_defs =
  DlAllocator_def aligned_begin_def aligned_end_def zero_memory_def sizeof_size_type_def
  max_alignment_def payloadToHeader_def toPayload_def setSize_free_def setSize_used_def
  thisSize_def prevSize_def next_Header_def size_Header_def previousSize_def InUse_def
  link_def link_loop.simps unlink_def nullptr_def prevFree_def nextFree_def Let_def
  allocate_def allocate_loop.simps deallocate_def needed_size_eq nextIfFree_def
  prevIfFree_def sizeof_Header_def usable_bytes_def minimum_alloc_size_def

lemma heap_a_1_step: "allocate fresh_64 4096 18446744073709551615 = Some (8208, heap_a_1)"
  by (simp add: eval_defs fresh_64_def heap_a_1_def fun_eq_iff)

lemma heap_a_2_step: "allocate heap_a_1 4096 16 = Some (8224, heap_a_2)"
  by (simp add: eval_defs heap_a_1_def heap_a_2_def fun_eq_iff)

lemma heap_a_3_step: "deallocate heap_a_2 4096 8208 = Some heap_a_3"
  by (simp add: eval_defs heap_a_2_def heap_a_3_def fun_eq_iff)

lemma heap_b_0_constructed: "DlAllocator zero_memory 4096 8192 8304 = Some heap_b_0"
  by (simp add: eval_defs heap_b_0_def fun_eq_iff)

lemma heap_b_1_step: "allocate heap_b_0 4096 16 = Some (8208, heap_b_1)"
  by (simp add: eval_defs heap_b_0_def heap_b_1_def fun_eq_iff)

lemma heap_b_2_step: "allocate heap_b_1 4096 18446744073709551600 = Some (8240, heap_b_2)"
  by (simp add: eval_defs heap_b_1_def heap_b_2_def fun_eq_iff)

lemma heap_b_3_step: "deallocate heap_b_2 4096 8208 = Some heap_b_3"
  by (simp add: eval_defs heap_b_2_def heap_b_3_def fun_eq_iff)

lemma heap_b_4_step: "allocate heap_b_3 4096 32 = Some (8208, heap_b_4)"
  by (simp add: eval_defs heap_b_3_def heap_b_4_def fun_eq_iff)

lemma heap_b_5_step: "deallocate heap_b_4 4096 8240 = Some heap_b_5"
  by (simp add: eval_defs heap_b_4_def heap_b_5_def fun_eq_iff)

lemma heap_c_0_constructed: "DlAllocator heap_c_init 4096 8192 8248 = Some heap_c_0"
  by (simp add: eval_defs heap_c_init_def heap_c_0_def fun_eq_iff)

lemma heap_c_1_step: "allocate heap_c_0 4096 18446744073709551600 = Some (8208, heap_c_1)"
  by (simp add: eval_defs heap_c_0_def heap_c_1_def fun_eq_iff)

lemma heap_c_2_step: "deallocate heap_c_1 4096 8208 = Some heap_c_2"
  by (simp add: eval_defs heap_c_1_def heap_c_2_def fun_eq_iff)

lemma heap_c_3_step: "allocate heap_c_2 4096 18446744073709551600 = Some (8248, heap_c_3)"
  by (simp add: eval_defs heap_c_2_def heap_c_3_def fun_eq_iff)

lemma heap_d_0_constructed: "DlAllocator heap_d_init 4096 8192 8248 = Some heap_d_0"
  by (simp add: eval_defs heap_d_init_def heap_d_0_def fun_eq_iff)

lemma heap_d_1_step: "allocate heap_d_0 4096 18446744073709551600 = Some (8208, heap_d_1)"
  by (simp add: eval_defs heap_d_0_def heap_d_1_def fun_eq_iff)

lemma heap_d_2_step: "deallocate heap_d_1 4096 8208 = Some heap_d_2"
  by (simp add: eval_defs heap_d_1_def heap_d_2_def fun_eq_iff)

lemma heap_d_3_step: "allocate heap_d_2 4096 5000 = Some (8248, heap_d_3)"
  by (simp add: eval_defs heap_d_2_def heap_d_3_def fun_eq_iff)

lemma heap_e_0_constructed: "DlAllocator zero_memory 4096 8192 8320 = Some heap_e_0"
  by (simp add: eval_defs heap_e_0_def fun_eq_iff)

lemma heap_e_1_step: "allocate heap_e_0 4096 16 = Some (8208, heap_e_1)"
  by (simp add: eval_defs heap_e_0_def heap_e_1_def fun_eq_iff)

lemma heap_e_2_step: "allocate heap_e_1 4096 16 = Some (8240, heap_e_2)"
  by (simp add: eval_defs heap_e_1_def heap_e_2_def fun_eq_iff)

lemma heap_e_3_step: "deallocate heap_e_2 4096 8208 = Some heap_e_3"
  by (simp add: eval_defs heap_e_2_def heap_e_3_def fun_eq_iff)

lemma heap_e_4_step: "deallocate heap_e_3 4096 8240 = Some heap_e_4"
  by (simp add: eval_defs heap_e_3_def heap_e_4_def fun_eq_iff)

lemma heap_e_wrapped_step:
  "allocate heap_e_0 4096 18446744073709551600 = Some (8208, heap_e_0)"
  by (simp add: eval_defs heap_e_0_def fun_eq_iff)

lemma heap_f_1_step: "allocate fresh_64 4096 18446744073709551600 = Some (8208, fresh_64)"
  by (simp add: eval_defs fresh_64_def fun_eq_iff)

lemma heap_f_2_step: "deallocate fresh_64 4096 8208 = Some heap_f_2"
  by (simp add: eval_defs fresh_64_def heap_f_2_def fun_eq_iff)

lemma chunk_sizes_fresh_64: "chunk_sizes fresh_64 8192 8256 = Some [64]"
  by (simp add: chunk_sizes.simps [of _ 8192] chunk_sizes.simps [of _ 8256] fresh_64_def
      eval_defs)

section \<open>Requests whose needed size wraps\<close>

text \<open>
  C1.  A non-null result of \<^verbatim>\<open>allocate(N)\<close> is to address a block of at least \<open>N\<close>
  usable bytes.  The code does not: for \<open>N = 2 ^ 64 - 1\<close> the needed size wraps to 16,
  and on the allocator built over the 96 bytes at 8192 the call returns the payload
  address 8208 of a chunk whose next header is at 8208 as well: the block has no usable
  byte at all.
\<close>

theorem allocate_max_request_undersized:
  "DlAllocator zero_memory 4096 8192 8288 = Some fresh_64
   \<and> allocate fresh_64 4096 18446744073709551615 = Some (8208, heap_a_1)
   \<and> (8208 :: addr) \<noteq> nullptr
   \<and> usable_bytes heap_a_1 8208 = 0
   \<and> usable_bytes heap_a_1 8208 < 18446744073709551615"
  by (simp add: fresh_64_constructed heap_a_1_step)
     (simp add: eval_defs heap_a_1_def)

text \<open>
  C4.  The masked sizes of the chunks tiling the region are to add up to the aligned
  interior size after every sequence of calls.  The code does not keep this: after
  \<^verbatim>\<open>allocate(2^64 - 1)\<close>, \<^verbatim>\<open>allocate(16)\<close> and \<^verbatim>\<open>deallocate\<close> of the first
  block, linking the 16-byte chunk at 8192 has written its free-list pointers over the
  header of the chunk at 8208, whose size now reads 4096: the chunks no longer tile the
  64 bytes between 8192 and 8256.
\<close>

theorem conservation_broken_by_wrapped_request:
  "chunk_sizes fresh_64 8192 8256 = Some [64]
   \<and> run fresh_64 4096 [] [Allocate 18446744073709551615, Allocate 16, Deallocate 8208]
         = Some ([8208, 8224], heap_a_3)
   \<and> chunk_sizes heap_a_3 8192 8256 = None
   \<and> size_Header heap_a_3 8192 = 16
   \<and> size_Header heap_a_3 8208 = 4096"
proof -
  have "run fresh_64 4096 [] [Allocate 18446744073709551615, Allocate 16, Deallocate 8208]
      = Some ([8208, 8224], heap_a_3)"
    by (simp add: heap_a_1_step heap_a_2_step heap_a_3_step nullptr_def)
  moreover have "size_Header heap_a_3 8192 = 16" "size_Header heap_a_3 8208 = 4096"
    by (simp_all add: heap_a_3_def eval_defs)
  moreover from this have "chunk_sizes heap_a_3 8192 8256 = None"
    by (simp add: chunk_sizes.simps [of _ 8192] chunk_sizes.simps [of _ 8208])
  ultimately show ?thesis
    by (simp add: chunk_sizes_fresh_64)
qed

text \<open>
  C6.  The free list is to be sorted by non-decreasing size after every sequence of
  calls.  The code does not keep this: \<^verbatim>\<open>allocate(2^64 - 16)\<close> has needed size 0 and
  returns the payload 8240 of a chunk that stays in the free list; after the calls below
  the traversal from \<^verbatim>\<open>m_freeList\<close> visits the chunk at 8240, of size 8256, before
  the chunk at 8224, of size 48.
\<close>

theorem free_list_unsorted_by_wrapped_request:
  "DlAllocator zero_memory 4096 8192 8304 = Some heap_b_0
   \<and> run heap_b_0 4096 []
         [Allocate 16, Allocate 18446744073709551600, Deallocate 8208, Allocate 32,
          Deallocate 8240]
         = Some ([8208, 8240, 8208], heap_b_5)
   \<and> free_list heap_b_5 (heap_b_5 4096) [8240, 8224]
   \<and> map (size_Header heap_b_5) [8240, 8224] = [8256, 48]"
proof -
  have "run heap_b_0 4096 []
         [Allocate 16, Allocate 18446744073709551600, Deallocate 8208, Allocate 32,
          Deallocate 8240]
         = Some ([8208, 8240, 8208], heap_b_5)"
    by (simp add: heap_b_1_step heap_b_2_step heap_b_3_step heap_b_4_step heap_b_5_step
        nullptr_def)
  moreover have "free_list heap_b_5 (heap_b_5 4096) [8240, 8224]"
    "map (size_Header heap_b_5) [8240, 8224] = [8256, 48]"
    by (simp_all add: heap_b_5_def eval_defs)
  ultimately show ?thesis
    by (simp add: heap_b_0_constructed)
qed

text \<open>
  C3.  On a freshly constructed allocator \<^verbatim>\<open>allocate(S)\<close>, \<^verbatim>\<open>deallocate\<close> of the
  result and \<^verbatim>\<open>allocate(S)\<close> again are to return the same address.  The code does
  not: over the 56 bytes at 8192 the aligned interior has 16 bytes, less than a header,
  so the constructor's \<^verbatim>\<open>link\<close> writes the chunk's free-list pointers over the end
  sentinel.  \<^verbatim>\<open>allocate(2^64 - 16)\<close>, of needed size 0, succeeds with 8208;
  \<^verbatim>\<open>deallocate\<close> then takes the sentinel for a free chunk and unlinks it through the
  old words of the buffer behind it, and the second \<^verbatim>\<open>allocate\<close> returns 8248.
\<close>

theorem round_trip_broken_on_small_region:
  "aligned_begin 8192 < aligned_end 8248
   \<and> DlAllocator heap_c_init 4096 8192 8248 = Some heap_c_0
   \<and> run heap_c_0 4096 []
         [Allocate 18446744073709551600, Deallocate 8208, Allocate 18446744073709551600]
         = Some ([8208, 8248], heap_c_3)"
  by (simp add: heap_c_0_constructed heap_c_1_step heap_c_2_step heap_c_3_step nullptr_def)
     (simp add: eval_defs)

text \<open>
  C9.  Every non-null pointer returned by \<^verbatim>\<open>allocate\<close> is to be a multiple of the
  maximum alignment.  The code does not ensure this: on the same small region, once the
  request of needed size 0 has been served and freed, the free list holds a chunk forged
  from the old words of the buffer, and \<^verbatim>\<open>allocate(5000)\<close> returns 8248, which is
  not a multiple of 16.
\<close>

theorem misaligned_pointer_after_wrapped_request:
  "DlAllocator heap_d_init 4096 8192 8248 = Some heap_d_0
   \<and> run heap_d_0 4096 [] [Allocate 18446744073709551600, Deallocate 8208, Allocate 5000]
         = Some ([8208, 8248], heap_d_3)
   \<and> (8248 :: addr) \<noteq> nullptr
   \<and> (8248 :: addr) mod max_alignment = 8"
  by (simp add: heap_d_0_constructed heap_d_1_step heap_d_2_step heap_d_3_step nullptr_def)
     (simp add: max_alignment_def)

text \<open>
  C2.  When no chunk of the free list is large enough for the request, \<^verbatim>\<open>allocate\<close>
  is to return the null pointer and to leave the state as it is, in every state of the
  allocator.  The code does not: on the allocator built over the 96 bytes at 8192,
  \<^verbatim>\<open>allocate(2^64 - 16)\<close> has needed size 0, returns 8208 and leaves the chunk at
  8192 in the free list, and \<^verbatim>\<open>deallocate(8208)\<close> then links this chunk in front of
  itself: its \<^verbatim>\<open>nextFree\<close> points to the chunk itself.  In this state the only chunk
  has 64 bytes and \<^verbatim>\<open>allocate(100)\<close> needs 128, but the search follows
  \<^verbatim>\<open>nextFree\<close> without end: the call does not return.
\<close>

theorem allocate_hangs_after_wrapped_request:
  "DlAllocator zero_memory 4096 8192 8288 = Some fresh_64
   \<and> run fresh_64 4096 [] [Allocate 18446744073709551600, Deallocate 8208]
         = Some ([8208], heap_f_2)
   \<and> heap_f_2 4096 = 8192
   \<and> heap_f_2 (nextFree 8192) = 8192
   \<and> size_Header heap_f_2 8192 = 64
   \<and> needed_size 100 = 128
   \<and> allocate heap_f_2 4096 100 = None"
proof -
  have st: "heap_f_2 4096 = 8192" "heap_f_2 (nextFree 8192) = 8192"
    "size_Header heap_f_2 8192 = 64" "needed_size 100 = 128"
    by (simp_all add: eval_defs heap_f_2_def)
  have "allocate heap_f_2 4096 100 = None"
    by (rule allocate_self_cycle) (simp_all add: st nullptr_def)
  moreover have "run fresh_64 4096 [] [Allocate 18446744073709551600, Deallocate 8208]
      = Some ([8208], heap_f_2)"
    by (simp add: heap_f_1_step heap_f_2_step nullptr_def)
  ultimately show ?thesis
    by (simp add: st fresh_64_constructed)
qed

text \<open>
  C8.  When \<^verbatim>\<open>allocate\<close> finds a fitting chunk and the size left over is at least
  \<^verbatim>\<open>sizeof(Header)\<close>, the front part is to become a used chunk of the needed size
  and the rest a new free chunk in the free list.  The code does not for a request whose
  needed size wraps to 0: on the allocator built over the 128 bytes at 8192,
  \<^verbatim>\<open>allocate(2^64 - 16)\<close> finds the chunk of 96 bytes at 8192 and takes the branch
  that splits, but the rest starts at the chunk's own header, so the stores that mark
  the front part used are overwritten.  The call returns the payload 8208 and leaves the
  memory as it was: the chunk at 8192 is still free, of size 96, and still in the free
  list.
\<close>

theorem split_leaves_chunk_free_on_wrapped_request:
  "DlAllocator zero_memory 4096 8192 8320 = Some heap_e_0
   \<and> needed_size 18446744073709551600 = 0
   \<and> free_list heap_e_0 (heap_e_0 4096) [8192]
   \<and> size_Header heap_e_0 8192 = 96
   \<and> sizeof_Header \<le> size_Header heap_e_0 8192 - needed_size 18446744073709551600
   \<and> allocate heap_e_0 4096 18446744073709551600 = Some (8208, heap_e_0)
   \<and> toPayload 8192 = 8208
   \<and> heap_e_0 (thisSize 8192) AND InUse = 0"
  by (simp add: heap_e_0_constructed heap_e_wrapped_step)
     (simp add: eval_defs heap_e_0_def)

section \<open>Addresses as natural numbers\<close>

text \<open>
  A word that holds a natural number below \<open>2 ^ 64\<close> behaves like that number, and
  the in-use bit of a tag is the parity of an even size.
\<close>

lemma unat_cell: "a < 2 ^ 64 \<Longrightarrow> unat (cell a) = a"
  by (simp add: cell_def unat_of_nat)

lemma cell_eq_iff: "a < 2 ^ 64 \<Longrightarrow> b < 2 ^ 64 \<Longrightarrow> (cell a = cell b) = (a = b)"
  by (metis unat_cell)

lemma cell_add: "cell a + cell b = cell (a + b)"
  by (simp add: cell_def)

lemma cell_unat: "cell (unat w) = w"
  by (simp add: cell_def)

lemma cell_numeral: "(numeral k :: addr) = cell (numeral k)"
  by (simp add: cell_def)

lemma cell_0: "(0 :: addr) = cell 0" and cell_1: "(1 :: addr) = cell 1"
  by (simp_all add: cell_def)

lemma cell_sub: "b \<le> a \<Longrightarrow> cell a - cell b = cell (a - b)"
  by (simp add: cell_def)

lemma cell_le_iff: "a < 2 ^ 64 \<Longrightarrow> b < 2 ^ 64 \<Longrightarrow> (cell a \<le> cell b) = (a \<le> b)"
  by (simp add: word_le_nat_alt unat_cell)

lemma cell_less_iff: "a < 2 ^ 64 \<Longrightarrow> b < 2 ^ 64 \<Longrightarrow> (cell a < cell b) = (a < b)"
  by (simp add: word_less_nat_alt unat_cell)

lemma cell_or_1: "even s \<Longrightarrow> cell s OR 1 = cell (Suc s)"
  by (simp add: cell_def or_one_eq)

lemma neg2_not_mask: "(- 2 :: 64 word) = NOT (mask 1)"
  using minus_exp_eq_not_mask [of 1, where ?'a = "64 word"] by simp

lemma unat_and_neg2: "unat ((w :: 64 word) AND - 2) = unat w - unat w mod 2"
  using unat_and_not_mask [of w 1] by (simp only: neg2_not_mask) simp

lemma cell_and_neg2_even: "even s \<Longrightarrow> s < 2 ^ 64 \<Longrightarrow> cell s AND - 2 = cell s"
  by (rule word_unat_eq_iff [THEN iffD2]) (simp add: unat_and_neg2 unat_cell)

lemma cell_and_neg2_odd: "even s \<Longrightarrow> Suc s < 2 ^ 64 \<Longrightarrow> cell (Suc s) AND - 2 = cell s"
  by (rule word_unat_eq_iff [THEN iffD2]) (simp add: unat_and_neg2 unat_cell mod_Suc)

lemma cell_and_1_even: "even s \<Longrightarrow> cell s AND 1 = 0"
proof -
  assume "even s"
  then have "even (cell s)"
    by (simp add: cell_def)
  then show ?thesis
    by (simp add: and_one_eq even_iff_mod_2_eq_zero)
qed

lemma cell_and_1_odd: "even s \<Longrightarrow> cell (Suc s) AND 1 = 1"
proof -
  assume "even s"
  then have "odd (cell (Suc s))"
    by (simp add: cell_def)
  then show ?thesis
    by (simp add: and_one_eq odd_iff_mod_2_eq_one)
qed

section \<open>The doubly linked free list\<close>

text \<open>
  The loop of \<^verbatim>\<open>link\<close> stops at the slot in front of the first header that is not
  smaller, and \<^verbatim>\<open>unlink\<close> and the stores of \<^verbatim>\<open>link\<close> take a header out of the
  list and put one in.  Stores to words the list does not occupy leave it as it is.
\<close>

lemma field_cells:
  "thisSize (cell a) = cell (a + 8)" "nextFree (cell a) = cell (a + 16)"
  "prevFree (cell a) = cell (a + 24)" "prevSize (cell a) = cell a"
  "toPayload (cell a) = cell (a + 16)" "payloadToHeader (cell (a + 16)) = cell a"
  by (simp_all add: thisSize_def nextFree_def prevFree_def prevSize_def toPayload_def
      payloadToHeader_def sizeof_size_type_def cell_def)

lemma dcells_nonempty [simp]: "dcells slot as \<noteq> []"
  by (cases as) auto

lemma dlist_frame: "c \<notin> set (dcells slot as) \<Longrightarrow> dlist (m(c := v)) slot as = dlist m slot as"
  by (induction as arbitrary: slot) auto

lemma dcells_append:
  "dcells slot (as @ bs) = butlast (dcells slot as) @ dcells (last_slot slot as) bs"
  by (induction as arbitrary: slot) auto

lemma last_dcells: "last (dcells slot as) = last_slot slot as"
  by (induction as arbitrary: slot) auto

lemma last_slot_in_dcells: "last_slot slot as \<in> set (dcells slot as)"
  by (metis dcells_nonempty last_dcells last_in_set)

lemma dlist_free_list:
  "dlist m slot as \<Longrightarrow> \<forall>a\<in>set as. cell a \<noteq> nullptr \<Longrightarrow> free_list m (m slot) (map cell as)"
  by (induction as arbitrary: slot) (auto simp: field_cells)

lemma link_loop_dlist:
  assumes "dlist m slot as"
    and "\<forall>a\<in>set as. cell a \<noteq> nullptr \<and> size_Header m (cell a) = cell (sz a) \<and> sz a < 2 ^ 64"
    and "size_Header m h = cell sh" "sh < 2 ^ 64"
  shows "link_loop m h slot = Some (last_slot slot (takeWhile (\<lambda>a. sz a < sh) as))"
  using assms
proof (induction as arbitrary: slot)
  case Nil
  then show ?case by (subst link_loop.simps) simp
next
  case (Cons a as)
  then show ?case
    by (subst link_loop.simps) (simp add: field_cells cell_less_iff)
qed

lemma unlink_frame:
  "c \<noteq> m (prevFree h) \<Longrightarrow> c \<noteq> prevFree (m (nextFree h)) \<Longrightarrow> unlink m h c = m c"
  by (auto simp add: unlink_def Let_def)

lemma unlink_dlist:
  assumes "dlist m slot (pre @ h # post)"
    and "distinct (dcells slot (pre @ h # post))"
    and "\<forall>a\<in>set post. cell a \<noteq> nullptr"
  shows "dlist (unlink m (cell h)) slot (pre @ post)
     \<and> (\<forall>c. c \<notin> set (dcells slot (pre @ h # post)) \<longrightarrow> unlink m (cell h) c = m c)
     \<and> unlink m (cell h) (cell (h + 16)) = m (cell (h + 16))
     \<and> unlink m (cell h) (cell (h + 24)) = m (cell (h + 24))"
  using assms
proof (induction pre arbitrary: slot)
  case Nil
  show ?case
  proof (cases post)
    case Nil
    with Nil.prems show ?thesis
      by (auto simp add: unlink_def Let_def field_cells)
  next
    case (Cons p ps)
    with Nil.prems show ?thesis
      by (auto simp add: unlink_def Let_def field_cells dlist_frame)
  qed
next
  case (Cons q qs)
  from Cons.prems have d: "dlist m (cell (q + 16)) (qs @ h # post)"
    and dist: "distinct (dcells (cell (q + 16)) (qs @ h # post))"
    and out: "slot \<notin> set (dcells (cell (q + 16)) (qs @ h # post))"
      "cell (q + 24) \<notin> set (dcells (cell (q + 16)) (qs @ h # post))"
    and ms: "m slot = cell q" "m (cell (q + 24)) = slot"
    by auto
  from Cons.IH [OF d dist Cons.prems(3)]
  have ih: "dlist (unlink m (cell h)) (cell (q + 16)) (qs @ post)"
    and fr: "\<And>c. c \<notin> set (dcells (cell (q + 16)) (qs @ h # post)) \<Longrightarrow> unlink m (cell h) c = m c"
    and keep: "unlink m (cell h) (cell (h + 16)) = m (cell (h + 16))"
      "unlink m (cell h) (cell (h + 24)) = m (cell (h + 24))"
    by auto
  from fr [OF out(1)] fr [OF out(2)] ms ih keep fr show ?case
    by auto
qed

lemma link_eq: "link m h first = map_option (link_writes m h) (link_loop m h first)"
  by (cases "link_loop m h first") (simp_all only: link_def link_writes_def option.case option.map Let_def)

lemma insert_dlist:
  assumes "dlist m slot (pre @ post)"
    and "distinct (dcells slot (pre @ post))"
    and "cell (h + 16) \<notin> set (dcells slot (pre @ post))"
    and "cell (h + 24) \<notin> set (dcells slot (pre @ post))"
    and "cell (h + 16) \<noteq> cell (h + 24)"
    and "cell h \<noteq> nullptr"
    and "\<forall>a\<in>set post. cell a \<noteq> nullptr"
  shows "dlist (link_writes m (cell h) (last_slot slot pre)) slot (pre @ h # post)
     \<and> (\<forall>c. c \<notin> set (dcells slot (pre @ post)) \<and> c \<noteq> cell (h + 16) \<and> c \<noteq> cell (h + 24)
            \<longrightarrow> link_writes m (cell h) (last_slot slot pre) c = m c)"
  using assms
proof (induction pre arbitrary: slot)
  case Nil
  show ?case
  proof (cases post)
    case Nil
    with Nil.prems show ?thesis
      by (auto simp add: link_writes_def Let_def field_cells)
  next
    case (Cons p ps)
    with Nil.prems show ?thesis
      by (auto simp add: link_writes_def Let_def field_cells dlist_frame)
  qed
next
  case (Cons q qs)
  let ?m' = "link_writes m (cell h) (last_slot (cell (q + 16)) qs)"
  from Cons.prems have d: "dlist m (cell (q + 16)) (qs @ post)"
    and dist: "distinct (dcells (cell (q + 16)) (qs @ post))"
    and fresh: "cell (h + 16) \<notin> set (dcells (cell (q + 16)) (qs @ post))"
      "cell (h + 24) \<notin> set (dcells (cell (q + 16)) (qs @ post))"
    and out: "slot \<notin> set (dcells (cell (q + 16)) (qs @ post))"
      "cell (q + 24) \<notin> set (dcells (cell (q + 16)) (qs @ post))"
      "slot \<noteq> cell (h + 16)" "slot \<noteq> cell (h + 24)"
      "cell (q + 24) \<noteq> cell (h + 16)" "cell (q + 24) \<noteq> cell (h + 24)"
    and ms: "m slot = cell q" "m (cell (q + 24)) = slot"
    by auto
  from Cons.IH [OF d dist fresh Cons.prems(5,6,7)]
  have ih: "dlist ?m' (cell (q + 16)) (qs @ h # post)"
    and fr: "\<And>c. c \<notin> set (dcells (cell (q + 16)) (qs @ post)) \<Longrightarrow> c \<noteq> cell (h + 16)
        \<Longrightarrow> c \<noteq> cell (h + 24) \<Longrightarrow> ?m' c = m c"
    by auto
  from fr [OF out(1,3,4)] fr [OF out(2,5,6)] ms ih fr show ?case
    by auto
qed

section \<open>Chunks and boundary tags\<close>

text \<open>
  Chunks of a chain lie side by side within the region, so their headers, their tags
  and the link fields of the free chunks are different words of memory.
\<close>

lemma chain_le: "chain lo cs hi \<Longrightarrow> lo \<le> hi"
proof (induction cs arbitrary: lo)
  case Nil
  then show ?case by simp
next
  case (Cons c cs)
  obtain a0 s0 u0 where "c = (a0, s0, u0)" by (cases c)
  with Cons.prems Cons.IH [of "lo + s0"] show ?case by auto
qed

lemma chain_bounds:
  "chain lo cs hi \<Longrightarrow> (a, s, u) \<in> set cs \<Longrightarrow> lo \<le> a \<and> a + s \<le> hi \<and> 32 \<le> s \<and> 16 dvd s"
proof (induction cs arbitrary: lo)
  case Nil
  then show ?case by simp
next
  case (Cons c cs)
  obtain a0 s0 u0 where c: "c = (a0, s0, u0)" by (cases c)
  with Cons.prems have ch: "chain (lo + s0) cs hi" by simp
  show ?case
  proof (cases "(a, s, u) = c")
    case True
    with c Cons.prems chain_le [OF ch] show ?thesis by auto
  next
    case False
    with Cons.prems have "(a, s, u) \<in> set cs" by auto
    from Cons.IH [OF ch this] show ?thesis by auto
  qed
qed

lemma chain_append:
  "chain lo (cs @ ds) hi = (\<exists>mid. chain lo cs mid \<and> chain mid ds hi)"
  by (induction cs arbitrary: lo) auto

lemma chain_disjoint:
  "chain lo cs hi \<Longrightarrow> (a, s, u) \<in> set cs \<Longrightarrow> (a', s', u') \<in> set cs \<Longrightarrow>
     (a, s, u) = (a', s', u') \<or> a + s \<le> a' \<or> a' + s' \<le> a"
proof (induction cs arbitrary: lo)
  case Nil
  then show ?case by simp
next
  case (Cons c cs)
  obtain a0 s0 u0 where c: "c = (a0, s0, u0)" by (cases c)
  with Cons.prems have ch: "chain (lo + s0) cs hi" and a0: "a0 = lo" "32 \<le> s0"
    by auto
  show ?case
  proof (cases "(a, s, u) = c")
    case True
    show ?thesis
    proof (cases "(a', s', u') = c")
      case True
      with \<open>(a, s, u) = c\<close> show ?thesis by simp
    next
      case False
      with Cons.prems have "(a', s', u') \<in> set cs" by auto
      from chain_bounds [OF ch this] True c a0 show ?thesis by auto
    qed
  next
    case False
    with Cons.prems have in1: "(a, s, u) \<in> set cs" by auto
    show ?thesis
    proof (cases "(a', s', u') = c")
      case True
      from chain_bounds [OF ch in1] True c a0 show ?thesis by auto
    next
      case False
      with Cons.prems have "(a', s', u') \<in> set cs" by auto
      from Cons.IH [OF ch in1 this] show ?thesis .
    qed
  qed
qed

lemma chain_same_addr:
  "chain lo cs hi \<Longrightarrow> (a, s, u) \<in> set cs \<Longrightarrow> (a, s', u') \<in> set cs \<Longrightarrow> s' = s \<and> u' = u"
  using chain_disjoint [of lo cs hi a s u a s' u'] chain_bounds [of lo cs hi a s u]
    chain_bounds [of lo cs hi a s' u']
  by auto

lemma frees_mem: "(a, s) \<in> set (frees cs) \<longleftrightarrow> (a, s, False) \<in> set cs"
  by (induction cs rule: frees.induct) auto

lemma set_dcells:
  "set (dcells slot as) = insert slot (cell ` (\<Union>a\<in>set as. {a + 16, a + 24}))"
  by (induction as arbitrary: slot) auto

lemma distinct_dcells:
  assumes "distinct as"
    and "\<forall>a\<in>set as. \<forall>b\<in>set as. a \<noteq> b \<longrightarrow> a + 32 \<le> b \<or> b + 32 \<le> a"
    and "\<forall>a\<in>set as. a + 32 < 2 ^ 64"
    and "\<forall>a\<in>set as. slot \<noteq> cell (a + 16) \<and> slot \<noteq> cell (a + 24)"
  shows "distinct (dcells slot as)"
  using assms
proof (induction as arbitrary: slot)
  case Nil
  then show ?case by simp
next
  case (Cons a as)
  have b: "a + 16 < 2 ^ 64" "a + 24 < 2 ^ 64"
    using Cons.prems(3) by auto
  have far: "\<forall>x\<in>set as. x + 32 \<le> a \<or> a + 32 \<le> x"
    using Cons.prems(1,2) by auto
  have bx: "\<forall>x\<in>set as. x + 16 < 2 ^ 64 \<and> x + 24 < 2 ^ 64"
    using Cons.prems(3) by auto
  have n1: "\<forall>x\<in>set as. cell (a + 16) \<noteq> cell (x + 16) \<and> cell (a + 16) \<noteq> cell (x + 24)"
    using far b bx by (auto simp add: cell_eq_iff)
  have n2: "\<forall>x\<in>set as. cell (a + 24) \<noteq> cell (x + 16) \<and> cell (a + 24) \<noteq> cell (x + 24)"
    using far b bx by (auto simp add: cell_eq_iff)
  have n3: "cell (a + 24) \<noteq> cell (a + 16)"
    using b by (simp add: cell_eq_iff)
  have ih: "distinct (dcells (cell (a + 16)) as)"
    using Cons.prems n1 by (intro Cons.IH) auto
  show ?case
    using ih n1 n2 n3 Cons.prems(4) by (auto simp add: set_dcells)
qed

lemma this_not_cell:
  "layout lo hi cs this \<Longrightarrow> lo \<le> c \<Longrightarrow> c < hi + 16 \<Longrightarrow> this \<noteq> cell c"
proof
  assume l: "layout lo hi cs this" and c: "lo \<le> c" "c < hi + 16" and "this = cell c"
  then have "unat this = c"
    by (simp add: layout_def unat_cell)
  with l c show False by (auto simp add: layout_def)
qed

lemma free_chunk:
  "layout lo hi cs this \<Longrightarrow> set fl \<subseteq> set (frees cs) \<Longrightarrow> (x, sx) \<in> set fl \<Longrightarrow>
     (x, sx, False) \<in> set cs \<and> lo \<le> x \<and> x + sx \<le> hi \<and> 32 \<le> sx \<and> 16 dvd sx \<and> 0 < x
       \<and> x + sx + 16 < 2 ^ 64"
  using chain_bounds [of lo cs hi x sx False]
  by (auto simp add: layout_def frees_mem)

lemma link_cell_cases:
  "c \<in> set (dcells this (map fst fl)) \<Longrightarrow>
     c = this \<or> (\<exists>(x, sx)\<in>set fl. c = cell (x + 16) \<or> c = cell (x + 24))"
  by (auto simp add: set_dcells)

lemma link_cells_not_tags:
  assumes l: "layout lo hi cs this" and sub: "set fl \<subseteq> set (frees cs)"
    and c: "c \<in> set (dcells this (map fst fl))" and y: "(y, sy, uy) \<in> set cs"
  shows "c \<noteq> cell (y + 8) \<and> c \<noteq> cell (y + sy) \<and> c \<noteq> cell lo \<and> c \<noteq> cell (hi + 8)"
proof -
  from l have ch: "chain lo cs hi" and hi: "hi + 16 < 2 ^ 64"
    by (simp_all add: layout_def)
  from chain_bounds [OF ch y] have yb: "lo \<le> y" "y + sy \<le> hi" "32 \<le> sy"
    by simp_all
  from link_cell_cases [OF c] show ?thesis
  proof
    assume "c = this"
    with this_not_cell [OF l, of "y + 8"] this_not_cell [OF l, of "y + sy"]
      this_not_cell [OF l, of lo] this_not_cell [OF l, of "hi + 8"] yb
    show ?thesis by auto
  next
    assume "\<exists>(x, sx)\<in>set fl. c = cell (x + 16) \<or> c = cell (x + 24)"
    then obtain x sx where x: "(x, sx) \<in> set fl" and cx: "c = cell (x + 16) \<or> c = cell (x + 24)"
      by auto
    from free_chunk [OF l sub x] have xb: "(x, sx, False) \<in> set cs" "lo \<le> x" "x + sx \<le> hi"
      "32 \<le> sx" by simp_all
    from chain_disjoint [OF ch xb(1) y]
    have "(x, sx, False) = (y, sy, uy) \<or> x + sx \<le> y \<or> y + sy \<le> x" .
    with cx xb yb hi show ?thesis
      by (auto simp add: cell_eq_iff)
  qed
qed

lemma inside_not_link:
  assumes l: "layout lo hi cs this" and sub: "set fl \<subseteq> set (frees cs)"
    and a: "(a, s, u) \<in> set cs" "a \<notin> fst ` set fl" and c: "a < c" "c \<le> a + s"
  shows "cell c \<notin> set (dcells this (map fst fl))"
proof
  assume in_cells: "cell c \<in> set (dcells this (map fst fl))"
  from l have ch: "chain lo cs hi" and hi: "hi + 16 < 2 ^ 64"
    by (simp_all add: layout_def)
  from chain_bounds [OF ch a(1)] have ab: "lo \<le> a" "a + s \<le> hi" "32 \<le> s"
    by simp_all
  from link_cell_cases [OF in_cells] show False
  proof
    assume "cell c = this"
    with this_not_cell [OF l, of c] ab c show False by auto
  next
    assume "\<exists>(x, sx)\<in>set fl. cell c = cell (x + 16) \<or> cell c = cell (x + 24)"
    then obtain x sx where x: "(x, sx) \<in> set fl"
      and cx: "cell c = cell (x + 16) \<or> cell c = cell (x + 24)"
      by auto
    from free_chunk [OF l sub x] have xb: "(x, sx, False) \<in> set cs" "lo \<le> x" "x + sx \<le> hi"
      "32 \<le> sx" by simp_all
    from x a(2) have "x \<noteq> a" by force
    with chain_disjoint [OF ch xb(1) a(1)] have "x + sx \<le> a \<or> a + s \<le> x"
      by auto
    with cx xb ab hi c show False
      by (auto simp add: cell_eq_iff)
  qed
qed

lemma boundary_not_link:
  assumes l: "layout lo hi cs this" and sub: "set fl \<subseteq> set (frees cs)"
  shows "cell lo \<notin> set (dcells this (map fst fl))"
    and "cell (hi + 8) \<notin> set (dcells this (map fst fl))"
proof -
  from l have ch: "chain lo cs hi" and hi: "hi + 16 < 2 ^ 64"
    by (simp_all add: layout_def)
  have le: "lo \<le> hi" by (rule chain_le [OF ch])
  {
    fix c assume c: "c = lo \<or> c = hi + 8"
    have "cell c \<notin> set (dcells this (map fst fl))"
    proof
      assume "cell c \<in> set (dcells this (map fst fl))"
      from link_cell_cases [OF this] show False
      proof
        assume "cell c = this"
        with this_not_cell [OF l, of c] c le show False by auto
      next
        assume "\<exists>(x, sx)\<in>set fl. cell c = cell (x + 16) \<or> cell c = cell (x + 24)"
        then obtain x sx where x: "(x, sx) \<in> set fl"
          and cx: "cell c = cell (x + 16) \<or> cell c = cell (x + 24)"
          by auto
        from free_chunk [OF l sub x] have "lo \<le> x" "x + sx \<le> hi" "32 \<le> sx" by simp_all
        with cx c hi le show False
          by (auto simp add: cell_eq_iff)
      qed
    qed
  }
  then show "cell lo \<notin> set (dcells this (map fst fl))"
    and "cell (hi + 8) \<notin> set (dcells this (map fst fl))"
    by simp_all
qed

lemma distinct_link_cells:
  assumes l: "layout lo hi cs this" and sub: "set fl \<subseteq> set (frees cs)"
    and d: "distinct (map fst fl)"
  shows "distinct (dcells this (map fst fl))"
proof (rule distinct_dcells)
  from l have ch: "chain lo cs hi" and hi: "hi + 16 < 2 ^ 64"
    by (simp_all add: layout_def)
  show "distinct (map fst fl)" by (rule d)
  show "\<forall>a\<in>set (map fst fl). \<forall>b\<in>set (map fst fl). a \<noteq> b \<longrightarrow> a + 32 \<le> b \<or> b + 32 \<le> a"
  proof (intro ballI impI)
    fix a b assume "a \<in> set (map fst fl)" "b \<in> set (map fst fl)" "a \<noteq> b"
    then obtain sa sb where ab: "(a, sa) \<in> set fl" "(b, sb) \<in> set fl"
      by auto
    from free_chunk [OF l sub ab(1)] free_chunk [OF l sub ab(2)]
    have in_cs: "(a, sa, False) \<in> set cs" "(b, sb, False) \<in> set cs" "32 \<le> sa" "32 \<le> sb"
      by simp_all
    from chain_disjoint [OF ch in_cs(1,2)] \<open>a \<noteq> b\<close> in_cs(3,4)
    show "a + 32 \<le> b \<or> b + 32 \<le> a" by auto
  qed
  show "\<forall>a\<in>set (map fst fl). a + 32 < 2 ^ 64"
  proof
    fix a assume "a \<in> set (map fst fl)"
    then obtain sa where "(a, sa) \<in> set fl" by auto
    from free_chunk [OF l sub this] show "a + 32 < 2 ^ 64" by simp
  qed
  show "\<forall>a\<in>set (map fst fl). this \<noteq> cell (a + 16) \<and> this \<noteq> cell (a + 24)"
  proof
    fix a assume "a \<in> set (map fst fl)"
    then obtain sa where "(a, sa) \<in> set fl" by auto
    from free_chunk [OF l sub this] this_not_cell [OF l, of "a + 16"]
      this_not_cell [OF l, of "a + 24"]
    show "this \<noteq> cell (a + 16) \<and> this \<noteq> cell (a + 24)" by simp
  qed
qed

section \<open>The loop of allocate and sorted insertion\<close>

text \<open>
  The loop of \<^verbatim>\<open>allocate\<close> passes the entries that are too small and runs its body
  on the first that fits.  \<open>ins\<close> keeps a sorted list sorted.
\<close>

lemma allocate_loop_unfold:
  "allocate_loop m this iter numBytes =
     (if iter = nullptr then Some (nullptr, m)
      else if numBytes \<le> size_Header m iter then allocate_chunk m this iter numBytes
      else allocate_loop m this (m (nextFree iter)) numBytes)"
  by (subst allocate_loop.simps) (simp only: allocate_chunk_def)

lemma tag_size:
  "even s \<Longrightarrow> Suc s < 2 ^ 64 \<Longrightarrow> tag s u AND NOT InUse = cell s"
  by (simp add: tag_def InUse_def cell_and_neg2_even cell_and_neg2_odd)

lemma tag_flag:
  "even s \<Longrightarrow> (tag s u AND InUse \<noteq> 0) = u"
  by (simp add: tag_def InUse_def cell_and_1_even cell_and_1_odd)

lemma chunk_size:
  assumes "layout lo hi cs this" "tags_ok m cs" "(a, s, u) \<in> set cs"
  shows "size_Header m (cell a) = cell s"
    and "(m (thisSize (cell a)) AND InUse \<noteq> 0) = u"
    and "next_Header m (cell a) = cell (a + s)"
    and "previousSize m (cell (a + s)) = cell s"
    and "(m (prevSize (cell (a + s))) AND InUse \<noteq> 0) = u"
proof -
  from assms have ch: "chain lo cs hi" and hi: "hi + 16 < 2 ^ 64"
    by (simp_all add: layout_def)
  from chain_bounds [OF ch assms(3)] have b: "a + s \<le> hi" "16 dvd s" by simp_all
  then have ev: "even s" and lt: "Suc s < 2 ^ 64"
    using hi by (auto dest: dvd_trans [of 2 16 s, rotated])
  from assms(2,3) have t: "m (cell (a + 8)) = tag s u" "m (cell (a + s)) = tag s u"
    by (auto simp add: tags_ok_def)
  show sz: "size_Header m (cell a) = cell s"
    by (simp add: size_Header_def field_cells t tag_size [OF ev lt])
  show "(m (thisSize (cell a)) AND InUse \<noteq> 0) = u"
    by (simp add: field_cells t tag_flag [OF ev])
  show "next_Header m (cell a) = cell (a + s)"
    by (simp add: next_Header_def sz cell_add)
  show "previousSize m (cell (a + s)) = cell s"
    by (simp add: previousSize_def field_cells t tag_size [OF ev lt])
  show "(m (prevSize (cell (a + s))) AND InUse \<noteq> 0) = u"
    by (simp add: field_cells t tag_flag [OF ev])
qed

lemma setSize_used_cell:
  assumes "even n" "Suc n < 2 ^ 64"
  shows "setSize_used m (cell a) (cell n) = m(cell (a + 8) := tag n True, cell (a + n) := tag n True)"
proof -
  have "(cell n OR InUse) AND NOT InUse = cell n"
    using assms by (simp add: InUse_def cell_or_1 cell_and_neg2_odd)
  then show ?thesis
    using assms
    by (simp add: setSize_used_def Let_def field_cells next_Header_def size_Header_def
        cell_add tag_def InUse_def cell_or_1)
qed

lemma setSize_free_cell:
  assumes "even n" "n < 2 ^ 64"
  shows "setSize_free m (cell a) (cell n) = m(cell (a + 8) := tag n False, cell (a + n) := tag n False)"
proof -
  have "cell n AND NOT InUse = cell n"
    using assms by (simp add: InUse_def cell_and_neg2_even)
  then show ?thesis
    by (simp add: setSize_free_def Let_def field_cells next_Header_def size_Header_def
        cell_add tag_def)
qed

lemma allocate_loop_first_fit:
  assumes "free_list m p (map cell as)"
    and "\<forall>a\<in>set as. size_Header m (cell a) = cell (sz a) \<and> sz a < 2 ^ 64"
    and "n < 2 ^ 64"
  shows "allocate_loop m this p (cell n) =
     (case dropWhile (\<lambda>a. sz a < n) as of
        [] \<Rightarrow> Some (nullptr, m)
      | a # _ \<Rightarrow> allocate_chunk m this (cell a) (cell n))"
  using assms
proof (induction as arbitrary: p)
  case Nil
  then show ?case by (subst allocate_loop_unfold) simp
next
  case (Cons a as)
  then show ?case
    by (subst allocate_loop_unfold) (auto simp add: cell_le_iff field_cells not_le)
qed

lemma ins_Nil [simp]: "ins x [] = [x]"
  by (simp add: ins_def)

lemma ins_Cons [simp]:
  "ins x (y # fl) = (if snd y < snd x then y # ins x fl else x # y # fl)"
  by (simp add: ins_def)

lemma set_ins [simp]: "set (ins x fl) = insert x (set fl)"
  by (induction fl) auto

lemma sorted_ins: "sorted (map snd fl) \<Longrightarrow> sorted (map snd (ins x fl))"
  by (induction fl) auto

lemma distinct_ins: "distinct fl \<Longrightarrow> x \<notin> set fl \<Longrightarrow> distinct (ins x fl)"
  by (induction fl) auto

section \<open>Stores confined to one chunk\<close>

text \<open>
  The central step: stores that stay inside some adjacent chunks \<open>mid\<close> may replace
  them by chunks \<open>new\<close> that cover the same addresses, when the tags of \<open>new\<close> are in
  place afterwards and the free list has lost the free chunks of \<open>mid\<close> before.
\<close>

lemma tags_ok_append [simp]: "tags_ok m (xs @ ys) = (tags_ok m xs \<and> tags_ok m ys)"
  by (simp add: tags_ok_def ball_Un)

lemma frees_append [simp]: "frees (xs @ ys) = frees xs @ frees ys"
  by (induction xs rule: frees.induct) auto

lemma dlist_cong:
  "(\<forall>c\<in>set (dcells slot as). m' c = m c) \<Longrightarrow> dlist m' slot as = dlist m slot as"
  by (induction as arbitrary: slot) auto

lemma distinct_fst:
  assumes "layout lo hi cs this" "set fl \<subseteq> set (frees cs)" "distinct fl"
  shows "distinct (map fst fl)"
proof -
  have "inj_on fst (set fl)"
  proof (rule inj_onI)
    fix p q assume pq: "p \<in> set fl" "q \<in> set fl" "fst p = fst q"
    obtain x sx where p: "p = (x, sx)" by (cases p)
    obtain y sy where q: "q = (y, sy)" by (cases q)
    from pq p q assms(2) have "(x, sx, False) \<in> set cs" "(x, sy, False) \<in> set cs"
      by (auto simp add: frees_mem)
    with chain_same_addr [of lo cs hi x sx False sy False] assms(1) p q pq show "p = q"
      by (auto simp add: layout_def)
  qed
  with assms(3) show ?thesis by (simp add: distinct_map)
qed

lemma heap_rel_replace:
  assumes rel: "heap_rel m this lo hi (pre @ mid @ post) fl"
    and mid: "chain a0 mid e0" "chain lo pre a0"
    and new: "chain a0 new e0" "tags_ok m' new"
    and fl: "set fl \<subseteq> set (frees (pre @ post))"
    and frame: "\<forall>w. (\<forall>c. a0 < c \<and> c \<le> e0 \<longrightarrow> w \<noteq> cell c) \<longrightarrow> m' w = m w"
  shows "heap_rel m' this lo hi (pre @ new @ post) fl"
proof -
  from rel have l: "layout lo hi (pre @ mid @ post) this"
    and tg: "tags_ok m pre" "tags_ok m post"
    and bd: "m (cell lo) = InUse" "m (cell (hi + 8)) = InUse"
    and dl: "dlist m this (map fst fl)" and rest: "distinct fl" "sorted (map snd fl)"
    by (simp_all add: heap_rel_def)
  from l have ch: "chain lo (pre @ mid @ post) hi" and hi: "hi + 16 < 2 ^ 64"
    and lo: "0 < lo" "16 dvd lo" and th: "unat this < lo \<or> hi + 16 \<le> unat this"
    by (simp_all add: layout_def)
  from ch obtain x y where c3: "chain lo pre x" "chain x mid y" "chain y post hi"
    by (auto simp add: chain_append)
  have chain_fun: "\<And>a cs e e'. chain a cs e \<Longrightarrow> chain a cs e' \<Longrightarrow> e = e'"
  proof -
    fix a cs e e' show "chain a cs e \<Longrightarrow> chain a cs e' \<Longrightarrow> e = e'"
      by (induction cs arbitrary: a) auto
  qed
  from chain_fun [OF c3(1) mid(2)] have x: "x = a0" .
  with chain_fun [OF c3(2) [unfolded x] mid(1)] have y: "y = e0" by simp
  from c3 x y have cpost: "chain e0 post hi" by simp
  have ch': "chain lo (pre @ new @ post) hi"
    using mid(2) new(1) cpost by (auto simp add: chain_append)
  then have l': "layout lo hi (pre @ new @ post) this"
    using lo hi th by (simp add: layout_def)
  have le: "lo \<le> a0" "a0 \<le> e0" "e0 \<le> hi"
    using chain_le [OF mid(2)] chain_le [OF mid(1)] chain_le [OF cpost] by simp_all
  have out: "m' (cell c) = m (cell c)" if "c \<le> a0 \<or> e0 < c" "c < 2 ^ 64" for c
  proof -
    have "\<forall>d. a0 < d \<and> d \<le> e0 \<longrightarrow> cell c \<noteq> cell d"
      using that le hi by (auto simp add: cell_eq_iff)
    with frame show ?thesis by blast
  qed
  have tpre: "tags_ok m' pre"
    unfolding tags_ok_def
  proof (intro ballI, clarify)
    fix a s u assume in_pre: "(a, s, u) \<in> set pre"
    from chain_bounds [OF mid(2) in_pre] have "a + s \<le> a0" "32 \<le> s" by simp_all
    with out [of "a + 8"] out [of "a + s"] le hi tg(1) in_pre
    show "m' (cell (a + 8)) = tag s u \<and> m' (cell (a + s)) = tag s u"
      by (auto simp add: tags_ok_def)
  qed
  have tpost: "tags_ok m' post"
    unfolding tags_ok_def
  proof (intro ballI, clarify)
    fix a s u assume in_post: "(a, s, u) \<in> set post"
    from chain_bounds [OF cpost in_post] have "e0 \<le> a" "a + s \<le> hi" "32 \<le> s" by simp_all
    with out [of "a + 8"] out [of "a + s"] le hi tg(2) in_post
    show "m' (cell (a + 8)) = tag s u \<and> m' (cell (a + s)) = tag s u"
      by (auto simp add: tags_ok_def)
  qed
  have bd': "m' (cell lo) = InUse" "m' (cell (hi + 8)) = InUse"
    using out [of lo] out [of "hi + 8"] le hi bd by simp_all
  have this_out: "m' this = m this"
  proof -
    have "\<forall>d. a0 < d \<and> d \<le> e0 \<longrightarrow> this \<noteq> cell d"
      using this_not_cell [OF l] le by auto
    with frame show ?thesis by blast
  qed
  have "dlist m' this (map fst fl) = dlist m this (map fst fl)"
  proof (rule dlist_cong, rule ballI)
    fix c assume "c \<in> set (dcells this (map fst fl))"
    from link_cell_cases [OF this] show "m' c = m c"
    proof
      assume "c = this"
      with this_out show ?thesis by simp
    next
      assume "\<exists>(x, sx)\<in>set fl. c = cell (x + 16) \<or> c = cell (x + 24)"
      then obtain x sx where xs: "(x, sx) \<in> set fl" and c: "c = cell (x + 16) \<or> c = cell (x + 24)"
        by auto
      from xs fl have "(x, sx, False) \<in> set pre \<or> (x, sx, False) \<in> set post"
        by (auto simp add: frees_mem)
      then have "(x + sx \<le> a0 \<or> e0 \<le> x) \<and> 32 \<le> sx \<and> x + sx \<le> hi"
        using chain_bounds [OF mid(2), of x sx False] chain_bounds [OF cpost, of x sx False] le
        by auto
      with c out [of "x + 16"] out [of "x + 24"] hi show ?thesis by auto
    qed
  qed
  with dl have dl': "dlist m' this (map fst fl)" by simp
  from fl have "set fl \<subseteq> set (frees (pre @ new @ post))" by auto
  with l' tpre new(2) tpost bd' dl' rest show ?thesis
    by (simp add: heap_rel_def)
qed

lemma unat_lt64: "unat (w :: 64 word) < 2 ^ 64"
  using unsigned_less [of w, where ?'a = nat] by simp

lemma set_dcells_Cons:
  "set (dcells this (h # as)) = set (dcells this as) \<union> {cell (h + 16), cell (h + 24)}"
  by (auto simp add: set_dcells)

lemma heap_rel_frame:
  assumes rel: "heap_rel m this lo hi cs fl"
    and sub: "set fl' \<subseteq> set (frees cs)"
    and frame: "\<forall>c. c \<notin> set (dcells this (map fst fl')) \<longrightarrow> m' c = m c"
  shows "tags_ok m' cs \<and> m' (cell lo) = InUse \<and> m' (cell (hi + 8)) = InUse"
proof -
  from rel have l: "layout lo hi cs this" and tg: "tags_ok m cs"
    and bd: "m (cell lo) = InUse" "m (cell (hi + 8)) = InUse"
    by (simp_all add: heap_rel_def)
  have "tags_ok m' cs"
    unfolding tags_ok_def
  proof (intro ballI, clarify)
    fix y sy uy assume y: "(y, sy, uy) \<in> set cs"
    have "cell (y + 8) \<notin> set (dcells this (map fst fl'))"
      "cell (y + sy) \<notin> set (dcells this (map fst fl'))"
      using link_cells_not_tags [OF l sub _ y] by blast+
    with frame tg y show "m' (cell (y + 8)) = tag sy uy \<and> m' (cell (y + sy)) = tag sy uy"
      by (auto simp add: tags_ok_def)
  qed
  moreover have "m' (cell lo) = InUse" "m' (cell (hi + 8)) = InUse"
    using boundary_not_link [OF l sub] frame bd by auto
  ultimately show ?thesis by simp
qed

lemma unlink_rel:
  assumes rel: "heap_rel m this lo hi cs fl" and a: "(a, s) \<in> set fl"
  shows "heap_rel (unlink m (cell a)) this lo hi cs (remove1 (a, s) fl)"
proof -
  from rel have l: "layout lo hi cs this"
    and dl: "dlist m this (map fst fl)" and d: "distinct fl"
    and sub: "set fl \<subseteq> set (frees cs)" and so: "sorted (map snd fl)"
    by (simp_all add: heap_rel_def)
  from split_list_first [OF a] obtain pre post where
    fl: "fl = pre @ (a, s) # post" and npre: "(a, s) \<notin> set pre" by blast
  have rm: "remove1 (a, s) fl = pre @ post"
    using npre by (simp add: fl remove1_append)
  have dc: "distinct (dcells this (map fst pre @ a # map fst post))"
    using distinct_link_cells [OF l sub distinct_fst [OF l sub d]] by (simp add: fl)
  have nn: "\<forall>x\<in>set (map fst post). cell x \<noteq> nullptr"
  proof
    fix x assume "x \<in> set (map fst post)"
    then obtain sx where "(x, sx) \<in> set post" by auto
    then have "(x, sx) \<in> set fl" by (simp add: fl)
    from free_chunk [OF l sub this] show "cell x \<noteq> nullptr"
      by (simp add: nullptr_def cell_0 cell_eq_iff)
  qed
  from dl have dl': "dlist m this (map fst pre @ a # map fst post)" by (simp add: fl)
  from unlink_dlist [OF dl' dc nn]
  have d1: "dlist (unlink m (cell a)) this (map fst (pre @ post))"
    and fr: "\<forall>c. c \<notin> set (dcells this (map fst fl)) \<longrightarrow> unlink m (cell a) c = m c"
    by (simp_all add: fl)
  from heap_rel_frame [OF rel sub fr] d1 l d sub so show ?thesis
    by (auto simp add: heap_rel_def rm [symmetric] sorted_map_remove1 dest: notin_set_remove1)
qed

lemma link_rel:
  assumes rel: "heap_rel m this lo hi cs fl" and h: "(h, sh, False) \<in> set cs"
    and nh: "h \<notin> fst ` set fl"
  shows "\<exists>m'. link m (cell h) this = Some m' \<and> heap_rel m' this lo hi cs (ins (h, sh) fl)"
proof -
  from rel have l: "layout lo hi cs this" and tg: "tags_ok m cs"
    and dl: "dlist m this (map fst fl)" and d: "distinct fl"
    and sub: "set fl \<subseteq> set (frees cs)" and so: "sorted (map snd fl)"
    by (simp_all add: heap_rel_def)
  from l have ch: "chain lo cs hi" and hi: "hi + 16 < 2 ^ 64" and lo: "0 < lo"
    by (simp_all add: layout_def)
  from chain_bounds [OF ch h] have hb: "lo \<le> h" "h + sh \<le> hi" "32 \<le> sh" by simp_all
  define sz where "sz x = unat (size_Header m (cell x))" for x
  have sz: "sz x = sx" if "(x, sx, u) \<in> set cs" for x sx u
    using chunk_size(1) [OF l tg that] chain_bounds [OF ch that] hi
    by (simp add: sz_def unat_cell)
  have szfl: "\<forall>y\<in>set fl. sz (fst y) = snd y"
    using sub sz by (auto simp add: frees_mem)
  let ?P = "\<lambda>y. snd y < snd (h, sh)"
  have tw: "takeWhile (\<lambda>x. sz x < sh) (map fst fl) = map fst (takeWhile ?P fl)"
    using szfl by (simp add: takeWhile_map) (rule arg_cong [where f = "map fst"], rule takeWhile_cong, auto)
  have sizes: "\<forall>x\<in>set (map fst fl). cell x \<noteq> nullptr \<and> size_Header m (cell x) = cell (sz x) \<and> sz x < 2 ^ 64"
  proof
    fix x assume "x \<in> set (map fst fl)"
    then obtain sx where "(x, sx) \<in> set fl" by auto
    from free_chunk [OF l sub this] unat_lt64 [of "size_Header m (cell x)"]
    show "cell x \<noteq> nullptr \<and> size_Header m (cell x) = cell (sz x) \<and> sz x < 2 ^ 64"
      by (simp add: nullptr_def cell_0 cell_eq_iff sz_def cell_unat)
  qed
  have hs: "size_Header m (cell h) = cell sh" "sh < 2 ^ 64"
    using chunk_size(1) [OF l tg h] hb hi by simp_all
  from link_loop_dlist [OF dl sizes hs]
  have loop: "link_loop m (cell h) this = Some (last_slot this (map fst (takeWhile ?P fl)))"
    by (simp add: tw)
  let ?pre = "map fst (takeWhile ?P fl)" and ?post = "map fst (dropWhile ?P fl)"
  have app: "?pre @ ?post = map fst fl"
    by (simp flip: map_append)
  have dc: "distinct (dcells this (?pre @ ?post))"
    using distinct_link_cells [OF l sub distinct_fst [OF l sub d]] by (simp only: app)
  have fresh: "cell (h + 16) \<notin> set (dcells this (?pre @ ?post))"
    "cell (h + 24) \<notin> set (dcells this (?pre @ ?post))"
    using inside_not_link [OF l sub h nh, of "h + 16"] inside_not_link [OF l sub h nh, of "h + 24"] hb
    by (simp_all only: app) simp_all
  have ne: "cell (h + 16) \<noteq> cell (h + 24)" "cell h \<noteq> nullptr"
    using hb hi lo by (simp_all add: cell_eq_iff nullptr_def cell_0)
  have nn: "\<forall>a\<in>set ?post. cell a \<noteq> nullptr"
    using sizes by (auto dest: set_dropWhileD)
  from dl have dl': "dlist m this (?pre @ ?post)" by (simp only: app)
  let ?m' = "link_writes m (cell h) (last_slot this ?pre)"
  note ins = insert_dlist [OF dl' dc fresh ne nn]
  from ins have d1: "dlist ?m' this (?pre @ h # ?post)"
    by (rule conjunct1)
  from ins have fr: "\<forall>c. c \<notin> set (dcells this (map fst fl)) \<and> c \<noteq> cell (h + 16) \<and> c \<noteq> cell (h + 24)
        \<longrightarrow> ?m' c = m c"
    unfolding app by (rule conjunct2)
  have link: "link m (cell h) this = Some ?m'"
    by (simp add: link_eq loop)
  have sub': "set ((h, sh) # fl) \<subseteq> set (frees cs)"
    using sub h by (simp add: frees_mem)
  have fr': "\<forall>c. c \<notin> set (dcells this (map fst ((h, sh) # fl))) \<longrightarrow> ?m' c = m c"
  proof (intro allI impI)
    fix c assume "c \<notin> set (dcells this (map fst ((h, sh) # fl)))"
    then have "c \<notin> set (dcells this (map fst fl)) \<and> c \<noteq> cell (h + 16) \<and> c \<noteq> cell (h + 24)"
      using set_dcells_Cons [of this h "map fst fl"] by auto
    with fr show "?m' c = m c" by blast
  qed
  have d2: "dlist ?m' this (map fst (ins (h, sh) fl))"
    using d1 by (simp add: ins_def)
  have "(h, sh) \<notin> set fl" using nh by force
  with heap_rel_frame [OF rel sub' fr'] d2 l d sub' so
  have "heap_rel ?m' this lo hi cs (ins (h, sh) fl)"
    by (simp add: heap_rel_def sorted_ins distinct_ins)
  with link show ?thesis by blast
qed

lemma chain_end_unique: "chain a cs e \<Longrightarrow> chain a cs e' \<Longrightarrow> e = e'"
  by (induction cs arbitrary: a) auto

lemma chain_dvd: "chain a cs e \<Longrightarrow> 16 dvd (e - a)"
proof (induction cs arbitrary: a)
  case Nil
  then show ?case by simp
next
  case (Cons c cs)
  obtain a' s u where c: "c = (a', s, u)" by (cases c)
  with Cons.prems have ch: "chain (a + s) cs e" and s: "16 dvd s" by auto
  from chain_le [OF ch] have "e - a = s + (e - (a + s))" by simp
  with Cons.IH [OF ch] s show ?case by simp
qed

lemma chain_size:
  assumes "chain a cs e" "cs \<noteq> []"
  shows "32 \<le> e - a" "16 dvd (e - a)" "a + (e - a) = e"
proof -
  from assms obtain a' s u ds where cs: "cs = (a', s, u) # ds" by (cases cs) auto
  with assms have "chain (a + s) ds e" "32 \<le> s" by auto
  from chain_le [OF this(1)] this(2) show "32 \<le> e - a" by simp
  show "16 dvd (e - a)" by (rule chain_dvd [OF assms(1)])
  from chain_le [OF assms(1)] show "a + (e - a) = e" by simp
qed

lemma heap_rel_chain:
  assumes "heap_rel m this lo hi (pre @ mid @ post) fl"
  shows "\<exists>a0 e0. chain lo pre a0 \<and> chain a0 mid e0 \<and> chain e0 post hi \<and> e0 + 16 < 2 ^ 64"
proof -
  from assms have "chain lo (pre @ mid @ post) hi" and hi: "hi + 16 < 2 ^ 64"
    by (simp_all add: heap_rel_def layout_def)
  then obtain a0 e0 where c: "chain lo pre a0" "chain a0 mid e0" "chain e0 post hi"
    by (auto simp add: chain_append)
  from chain_le [OF c(3)] hi have "e0 + 16 < 2 ^ 64" by simp
  with c show ?thesis by blast
qed

lemma retag_link:
  assumes rel: "heap_rel m this lo hi (pre @ mid @ post) fl"
    and ch: "chain lo pre a0" "chain a0 mid e0" "mid \<noteq> []"
    and fl: "set fl \<subseteq> set (frees (pre @ post))"
  shows "\<exists>m'. link (setSize_free m (cell a0) (cell (e0 - a0))) (cell a0) this = Some m' \<and>
           heap_rel m' this lo hi (pre @ (a0, e0 - a0, False) # post) (ins (a0, e0 - a0) fl)"
proof -
  let ?t = "e0 - a0"
  from heap_rel_chain [OF rel] obtain x y where
    c3: "chain lo pre x" "chain x mid y" "chain y post hi" "y + 16 < 2 ^ 64" by blast
  from chain_end_unique [OF c3(1) ch(1)] have x: "x = a0" .
  with chain_end_unique [OF c3(2) [unfolded x] ch(2)] have y: "y = e0" by simp
  have e0: "e0 + 16 < 2 ^ 64" and cpost: "chain e0 post hi"
    using c3 y by simp_all
  have t: "32 \<le> ?t" "16 dvd ?t" "a0 + ?t = e0"
    by (rule chain_size [OF ch(2,3)])+
  then have ev: "even ?t" by (meson dvd_trans even_numeral)
  have tlt: "?t < 2 ^ 64" using e0 by simp
  define m1 where "m1 = m(cell (a0 + 8) := tag ?t False, cell (a0 + ?t) := tag ?t False)"
  have set_eq: "setSize_free m (cell a0) (cell ?t) = m1"
    unfolding m1_def by (rule setSize_free_cell [OF ev tlt])
  have a8: "cell (a0 + 8) \<noteq> cell (a0 + ?t)"
    using t e0 by (simp add: cell_eq_iff)
  have new: "chain a0 [(a0, ?t, False)] e0" "tags_ok m1 [(a0, ?t, False)]"
    using t a8 by (simp_all add: tags_ok_def m1_def)
  have frame: "\<forall>w. (\<forall>c. a0 < c \<and> c \<le> e0 \<longrightarrow> w \<noteq> cell c) \<longrightarrow> m1 w = m w"
  proof (intro allI impI)
    fix w assume "\<forall>c. a0 < c \<and> c \<le> e0 \<longrightarrow> w \<noteq> cell c"
    then have "w \<noteq> cell (a0 + 8)" "w \<noteq> cell (a0 + ?t)" using t by auto
    then show "m1 w = m w" by (simp add: m1_def)
  qed
  from heap_rel_replace [OF rel ch(2,1) new fl frame]
  have rel': "heap_rel m1 this lo hi (pre @ (a0, ?t, False) # post) fl" by simp
  have nh: "a0 \<notin> fst ` set fl"
  proof
    assume "a0 \<in> fst ` set fl"
    then obtain sx where "(a0, sx) \<in> set fl" by auto
    with fl have "(a0, sx, False) \<in> set pre \<or> (a0, sx, False) \<in> set post"
      by (auto simp add: frees_mem)
    with chain_bounds [OF ch(1), of a0 sx False] chain_bounds [OF cpost, of a0 sx False] t
    show False by auto
  qed
  from link_rel [OF rel' _ nh, of ?t] show ?thesis
    by (simp add: set_eq)
qed

section \<open>allocate preserves the invariant\<close>

text \<open>
  From a fitting free chunk \<^verbatim>\<open>allocate\<close> makes a used chunk and, when the rest has room
  for a header, a free one that it links.
\<close>

lemma sizeof_Header_cell: "sizeof_Header = cell 32"
  by (simp add: sizeof_Header_def sizeof_size_type_def cell_def)

lemma rest_of_free_list:
  assumes l: "layout lo hi (pre @ (a, s, False) # post) this"
    and sub: "set fl \<subseteq> set (frees (pre @ (a, s, False) # post))" and d: "distinct fl"
  shows "set (remove1 (a, s) fl) \<subseteq> set (frees (pre @ post))"
  using sub d by (auto simp add: frees_mem)

lemma allocate_chunk_rel:
  assumes rel: "heap_rel m this lo hi (pre @ (a, s, False) # post) fl"
    and a: "(a, s) \<in> set fl" and n: "32 \<le> n" "16 dvd n" "n \<le> s"
  shows "\<exists>m'. allocate_chunk m this (cell a) (cell n) = Some (cell (a + 16), m') \<and>
     (if 32 \<le> s - n
      then heap_rel m' this lo hi (pre @ (a, n, True) # (a + n, s - n, False) # post)
             (ins (a + n, s - n) (remove1 (a, s) fl))
      else heap_rel m' this lo hi (pre @ (a, s, True) # post) (remove1 (a, s) fl))"
proof -
  let ?cs = "pre @ (a, s, False) # post" and ?fl0 = "remove1 (a, s) fl"
  define m1 where "m1 = unlink m (cell a)"
  have rel1: "heap_rel m1 this lo hi (pre @ [(a, s, False)] @ post) ?fl0"
    using unlink_rel [OF rel a] by (simp add: m1_def)
  then have l: "layout lo hi ?cs this" and tg1: "tags_ok m1 ?cs" and d0: "distinct ?fl0"
    by (simp_all add: heap_rel_def)
  from rel have sub: "set fl \<subseteq> set (frees ?cs)" and d: "distinct fl"
    by (simp_all add: heap_rel_def)
  have fl0: "set ?fl0 \<subseteq> set (frees (pre @ post))"
    by (rule rest_of_free_list [OF l sub d])
  from heap_rel_chain [OF rel1] obtain a0 e0 where
    c3: "chain lo pre a0" "chain a0 [(a, s, False)] e0" "chain e0 post hi" "e0 + 16 < 2 ^ 64"
    by blast
  then have a0: "a0 = a" and e0: "e0 = a + s" and s: "32 \<le> s" "16 dvd s" by auto
  have lt: "a + s + 16 < 2 ^ 64" using c3(4) e0 by simp
  have ev: "even n" "even s" "even (s - n)"
    using n s by (auto dest: dvd_trans [of 2 16, rotated])
  have sz1: "size_Header m1 (cell a) = cell s"
    by (rule chunk_size(1) [OF l tg1, of a s False]) simp
  have rem: "size_Header m1 (cell a) - cell n = cell (s - n)"
    using n by (simp add: sz1 cell_sub)
  have cond: "(sizeof_Header \<le> cell (s - n)) = (32 \<le> s - n)"
    using lt by (simp add: sizeof_Header_cell cell_le_iff)
  show ?thesis
  proof (cases "32 \<le> s - n")
    case True
    define m3 where "m3 = m1(cell (a + 8) := tag n True, cell (a + n) := tag n True,
       cell (a + n + 8) := tag (s - n) False, cell (a + n + (s - n)) := tag (s - n) False)"
    have ne: "cell (a + 8) \<noteq> cell (a + n)" "cell (a + 8) \<noteq> cell (a + n + 8)"
      "cell (a + 8) \<noteq> cell (a + n + (s - n))" "cell (a + n) \<noteq> cell (a + n + 8)"
      "cell (a + n) \<noteq> cell (a + n + (s - n))" "cell (a + n + 8) \<noteq> cell (a + n + (s - n))"
      using n True lt by (simp_all add: cell_eq_iff)
    have m2: "setSize_used m1 (cell a) (cell n) = m1(cell (a + 8) := tag n True, cell (a + n) := tag n True)"
      using n lt ev by (intro setSize_used_cell) simp_all
    have nxt: "next_Header (setSize_used m1 (cell a) (cell n)) (cell a) = cell (a + n)"
      using ne ev n lt by (simp add: m2 next_Header_def size_Header_def field_cells tag_size cell_add)
    have m3: "setSize_free (setSize_used m1 (cell a) (cell n)) (cell (a + n)) (cell (s - n)) = m3"
      using ev lt by (simp add: setSize_free_cell m2 m3_def)
    have new: "chain a0 [(a, n, True), (a + n, s - n, False)] e0"
      using n True a0 e0 s by (simp add: dvd_diff_nat)
    have tnew: "tags_ok m3 [(a, n, True), (a + n, s - n, False)]"
      using ne by (simp add: tags_ok_def m3_def)
    have frame: "\<forall>w. (\<forall>c. a0 < c \<and> c \<le> e0 \<longrightarrow> w \<noteq> cell c) \<longrightarrow> m3 w = m1 w"
    proof (intro allI impI)
      fix w assume "\<forall>c. a0 < c \<and> c \<le> e0 \<longrightarrow> w \<noteq> cell c"
      then have "w \<noteq> cell (a + 8)" "w \<noteq> cell (a + n)" "w \<noteq> cell (a + n + 8)"
        "w \<noteq> cell (a + n + (s - n))"
        using n True a0 e0 by auto
      then show "m3 w = m1 w" by (simp add: m3_def)
    qed
    from heap_rel_replace [OF rel1 c3(2,1) new tnew fl0 frame]
    have rel3: "heap_rel m3 this lo hi (pre @ (a, n, True) # (a + n, s - n, False) # post) ?fl0"
      by simp
    have nh: "a + n \<notin> fst ` set ?fl0"
    proof
      assume "a + n \<in> fst ` set ?fl0"
      then obtain sx where "(a + n, sx) \<in> set ?fl0" by auto
      with fl0 have "(a + n, sx, False) \<in> set pre \<or> (a + n, sx, False) \<in> set post"
        by (auto simp add: frees_mem)
      with chain_bounds [OF c3(1), of "a + n" sx False] chain_bounds [OF c3(3), of "a + n" sx False]
        n True a0 e0
      show False by auto
    qed
    from link_rel [OF rel3 _ nh, of "s - n"] obtain m' where
      "link m3 (cell (a + n)) this = Some m'"
      "heap_rel m' this lo hi (pre @ (a, n, True) # (a + n, s - n, False) # post)
         (ins (a + n, s - n) ?fl0)"
      by auto
    with True cond rem nxt m3 show ?thesis
      by (simp add: allocate_chunk_def Let_def m1_def [symmetric] field_cells)
  next
    case False
    define m2 where "m2 = m1(cell (a + 8) := tag s True, cell (a + s) := tag s True)"
    have m2: "setSize_used m1 (cell a) (size_Header m1 (cell a)) = m2"
      using lt ev by (simp add: sz1 setSize_used_cell m2_def)
    have ne: "cell (a + 8) \<noteq> cell (a + s)"
      using s lt by (simp add: cell_eq_iff)
    have new: "chain a0 [(a, s, True)] e0" "tags_ok m2 [(a, s, True)]"
      using a0 e0 s ne by (simp_all add: tags_ok_def m2_def)
    have frame: "\<forall>w. (\<forall>c. a0 < c \<and> c \<le> e0 \<longrightarrow> w \<noteq> cell c) \<longrightarrow> m2 w = m1 w"
    proof (intro allI impI)
      fix w assume "\<forall>c. a0 < c \<and> c \<le> e0 \<longrightarrow> w \<noteq> cell c"
      then have "w \<noteq> cell (a + 8)" "w \<noteq> cell (a + s)"
        using s a0 e0 by auto
      then show "m2 w = m1 w" by (simp add: m2_def)
    qed
    from heap_rel_replace [OF rel1 c3(2,1) new fl0 frame]
    have "heap_rel m2 this lo hi (pre @ (a, s, True) # post) ?fl0"
      by simp
    with False cond rem m2 show ?thesis
      by (simp add: allocate_chunk_def Let_def m1_def [symmetric] field_cells)
  qed
qed

lemma needed_size_cell:
  assumes "unat N + 31 < 2 ^ 64"
  shows "needed_size N = cell (needed_nat N)"
    and "32 \<le> needed_nat N" and "16 dvd needed_nat N" and "needed_nat N < 2 ^ 64"
    and "unat N + 16 \<le> needed_nat N"
proof -
  define k where "k = max (unat N) 16 + 31"
  have k: "k < 2 ^ 64" "47 \<le> k" "unat N + 31 \<le> k"
    using assms unat_lt64 [of N] by (auto simp add: k_def max_def)
  have nn: "needed_nat N = k - k mod 16"
    by (simp add: needed_nat_def k_def)
  have c: "unat minimum_alloc_size = 16" "2 * unat sizeof_size_type = 16"
    "unat max_alignment = 16"
    by (simp_all add: minimum_alloc_size_def sizeof_size_type_def max_alignment_def)
  have m1: "(max (unat N) 16 + 16) mod 2 ^ 64 = max (unat N) 16 + 16"
    using k by (intro mod_less) (simp add: k_def)
  have m2: "(max (unat N) 16 + 16 + 16 - 1) mod 2 ^ 64 = k"
    using k by (simp add: k_def)
  have "unat (needed_size N) = k - k mod 16"
    by (simp only: unat_needed_size [of N] c Let_def m1 m2)
  then have "unat (needed_size N) = needed_nat N"
    by (simp only: nn)
  then show "needed_size N = cell (needed_nat N)"
    by (metis cell_unat)
  show "32 \<le> needed_nat N" "needed_nat N < 2 ^ 64" "unat N + 16 \<le> needed_nat N"
    using k by (simp_all add: nn)
  show "16 dvd needed_nat N"
    by (simp add: nn dvd_minus_mod)
qed

lemma allocate_fit:
  assumes rel: "heap_rel m this lo hi cs fl"
    and nd: "needed_size N = cell n" "n < 2 ^ 64"
  shows "allocate m this N =
     (case dropWhile (\<lambda>y. snd y < n) fl of
        [] \<Rightarrow> Some (nullptr, m)
      | (a, s) # _ \<Rightarrow> allocate_chunk m this (cell a) (cell n))"
proof -
  from rel have l: "layout lo hi cs this" and tg: "tags_ok m cs"
    and dl: "dlist m this (map fst fl)" and sub: "set fl \<subseteq> set (frees cs)"
    by (simp_all add: heap_rel_def)
  from l have ch: "chain lo cs hi" and hi: "hi + 16 < 2 ^ 64"
    by (simp_all add: layout_def)
  define sz where "sz x = unat (size_Header m (cell x))" for x
  have szfl: "\<forall>y\<in>set fl. sz (fst y) = snd y"
  proof
    fix y assume y: "y \<in> set fl"
    obtain x sx where yx: "y = (x, sx)" by (cases y)
    from free_chunk [OF l sub y [unfolded yx]] chunk_size(1) [OF l tg, of x sx False]
    show "sz (fst y) = snd y"
      by (simp add: yx sz_def unat_cell)
  qed
  have nn: "\<forall>a\<in>set (map fst fl). cell a \<noteq> nullptr"
  proof
    fix x assume "x \<in> set (map fst fl)"
    then obtain sx where "(x, sx) \<in> set fl" by auto
    from free_chunk [OF l sub this] show "cell x \<noteq> nullptr"
      by (simp add: nullptr_def cell_0 cell_eq_iff)
  qed
  have sizes: "\<forall>a\<in>set (map fst fl). size_Header m (cell a) = cell (sz a) \<and> sz a < 2 ^ 64"
    using unat_lt64 by (simp add: sz_def cell_unat)
  have dw: "dropWhile (\<lambda>x. sz x < n) (map fst fl) = map fst (dropWhile (\<lambda>y. snd y < n) fl)"
    using szfl by (simp add: dropWhile_map) (rule arg_cong [where f = "map fst"], rule dropWhile_cong, auto)
  have fl: "free_list m (m this) (map cell (map fst fl))"
    by (rule dlist_free_list [OF dl nn])
  show ?thesis
  proof (cases "dropWhile (\<lambda>y. snd y < n) fl")
    case Nil
    then show ?thesis
      by (simp only: allocate_def nd(1) allocate_loop_first_fit [OF fl sizes nd(2)] dw
          list.case list.map)
  next
    case (Cons y ys)
    obtain a s where "y = (a, s)" by (cases y)
    with Cons show ?thesis
      by (simp add: allocate_def nd(1) allocate_loop_first_fit [OF fl sizes nd(2)] dw)
  qed
qed

section \<open>deallocate preserves the invariant\<close>

text \<open>
  \<^verbatim>\<open>deallocate\<close> replaces the chunk and its free neighbours by one free chunk.
\<close>

lemma next_cases:
  assumes "chain e post hi"
  obtains (none) "post = []" "e = hi" "\<not> next_free post"
  | (used) s2 post' where "post = (e, s2, True) # post'" "\<not> next_free post"
  | (free) s2 post' where "post = (e, s2, False) # post'" "next_free post" "nsize post = s2"
      "after_next post = post'"
proof (cases post)
  case Nil
  with assms none show ?thesis by (simp add: next_free_def)
next
  case (Cons c post')
  obtain b s2 u where "c = (b, s2, u)" by (cases c)
  with Cons assms used free show ?thesis
    by (cases u) (auto simp add: next_free_def nsize_def after_next_def)
qed

lemma prev_cases:
  assumes "chain lo pre a"
  obtains (none) "pre = []" "a = lo" "\<not> prev_free pre"
  | (used) a0 s0 pre' where "pre = pre' @ [(a0, s0, True)]" "a0 + s0 = a" "\<not> prev_free pre"
  | (free) a0 s0 pre' where "pre = pre' @ [(a0, s0, False)]" "a0 + s0 = a" "prev_free pre"
      "psize pre = s0" "before_prev pre = pre'" "chain lo pre' a0" "32 \<le> s0"
proof (cases pre rule: rev_cases)
  case Nil
  with assms none show ?thesis by (simp add: prev_free_def)
next
  case (snoc pre' c)
  obtain a0 s0 u where c: "c = (a0, s0, u)" by (cases c)
  from assms snoc c obtain x where x: "chain lo pre' x" "chain x [(a0, s0, u)] a"
    by (auto simp add: chain_append)
  then have "x = a0" "a0 + s0 = a" "32 \<le> s0" by auto
  with snoc c x used free show ?thesis
    by (cases u) (auto simp add: prev_free_def psize_def before_prev_def)
qed

lemma InUse_flag: "InUse \<noteq> 0"
  by (simp add: InUse_def)

lemma dealloc_next_step:
  assumes rel: "heap_rel m this lo hi (pre @ (a, s, True) # post) fl"
    and full: "set (frees (pre @ (a, s, True) # post)) \<subseteq> set fl"
  shows "nextIfFree m (cell a) = (if next_free post then cell (a + s) else nullptr)"
    and "cell (a + s) \<noteq> nullptr"
    and "size_Header m (cell a) = cell s"
    and "heap_rel (if next_free post then unlink m (cell (a + s)) else m) this lo hi
           (pre @ (a, s, True) # post) (drop_entry (next_free post) (a + s, nsize post) fl)"
    and "next_free post \<Longrightarrow>
           size_Header (if next_free post then unlink m (cell (a + s)) else m) (cell (a + s))
             = cell (nsize post)"
proof -
  let ?cs = "pre @ (a, s, True) # post"
  from rel have l: "layout lo hi ?cs this" and tg: "tags_ok m ?cs"
    and bd: "m (cell (hi + 8)) = InUse"
    by (simp_all add: heap_rel_def)
  from l have ch: "chain lo ?cs hi" and hi: "hi + 16 < 2 ^ 64" and lo: "0 < lo"
    by (simp_all add: layout_def)
  from ch obtain x where c: "chain lo pre x" "chain x ((a, s, True) # post) hi"
    by (auto simp add: chain_append)
  then have cp: "chain (a + s) post hi" and s: "32 \<le> s" by auto
  from chain_bounds [OF ch, of a s True] have ab: "lo \<le> a" "a + s \<le> hi" by simp_all
  show nn: "cell (a + s) \<noteq> nullptr"
    using ab lo hi by (simp add: nullptr_def cell_0 cell_eq_iff)
  show sz: "size_Header m (cell a) = cell s"
    by (rule chunk_size(1) [OF l tg, of a s True]) simp
  have nx: "next_Header m (cell a) = cell (a + s)"
    by (rule chunk_size(3) [OF l tg, of a s True]) simp
  from cp show "nextIfFree m (cell a) = (if next_free post then cell (a + s) else nullptr)"
  proof (cases rule: next_cases)
    case none
    with bd show ?thesis
      by (simp add: nextIfFree_def Let_def nx field_cells InUse_flag)
  next
    case (used s2 post')
    with chunk_size(2) [OF l tg, of "a + s" s2 True] show ?thesis
      by (simp add: nextIfFree_def Let_def nx)
  next
    case (free s2 post')
    with chunk_size(2) [OF l tg, of "a + s" s2 False] show ?thesis
      by (simp add: nextIfFree_def Let_def nx)
  qed
  from cp show "heap_rel (if next_free post then unlink m (cell (a + s)) else m) this lo hi
           ?cs (drop_entry (next_free post) (a + s, nsize post) fl)"
  proof (cases rule: next_cases)
    case none
    with rel show ?thesis by (simp add: drop_entry_def)
  next
    case (used s2 post')
    with rel show ?thesis by (simp add: drop_entry_def)
  next
    case (free s2 post')
    with full have "(a + s, s2) \<in> set fl" by auto
    from unlink_rel [OF rel this] free show ?thesis by (simp add: drop_entry_def)
  qed
  then have tg1: "tags_ok (if next_free post then unlink m (cell (a + s)) else m) ?cs"
    by (simp add: heap_rel_def)
  assume nf: "next_free post"
  from cp show "size_Header (if next_free post then unlink m (cell (a + s)) else m) (cell (a + s))
             = cell (nsize post)"
  proof (cases rule: next_cases)
    case none
    with nf show ?thesis by simp
  next
    case (used s2 post')
    with nf show ?thesis by simp
  next
    case (free s2 post')
    with chunk_size(1) [OF l tg1, of "a + s" s2 False] show ?thesis by simp
  qed
qed

lemma dealloc_prev_step:
  assumes rel: "heap_rel m this lo hi (pre @ (a, s, True) # post) fl"
    and full: "prev_free pre \<Longrightarrow> (a - psize pre, psize pre) \<in> set fl"
  shows "prevIfFree m (cell a) = (if prev_free pre then cell (a - psize pre) else nullptr)"
    and "cell (a - psize pre) \<noteq> nullptr"
    and "heap_rel (if prev_free pre then unlink m (cell (a - psize pre)) else m) this lo hi
           (pre @ (a, s, True) # post) (drop_entry (prev_free pre) (a - psize pre, psize pre) fl)"
    and "prev_free pre \<Longrightarrow>
           size_Header (if prev_free pre then unlink m (cell (a - psize pre)) else m)
             (cell (a - psize pre)) = cell (psize pre)"
proof -
  let ?cs = "pre @ (a, s, True) # post"
  from rel have l: "layout lo hi ?cs this" and tg: "tags_ok m ?cs"
    and bd: "m (cell lo) = InUse"
    by (simp_all add: heap_rel_def)
  from l have ch: "chain lo ?cs hi" and hi: "hi + 16 < 2 ^ 64" and lo: "0 < lo"
    by (simp_all add: layout_def)
  from ch obtain x where c: "chain lo pre x" "chain x ((a, s, True) # post) hi"
    by (auto simp add: chain_append)
  then have cp: "chain lo pre a" by auto
  from chain_bounds [OF ch, of a s True] have ab: "lo \<le> a" "a + s \<le> hi" by simp_all
  from cp show "cell (a - psize pre) \<noteq> nullptr"
  proof (cases rule: prev_cases)
    case none
    with lo hi ab show ?thesis by (simp add: psize_def nullptr_def cell_0 cell_eq_iff)
  next
    case (used a0 s0 pre')
    with lo hi ab show ?thesis by (simp add: psize_def nullptr_def cell_0 cell_eq_iff)
  next
    case (free a0 s0 pre')
    from chain_le [OF free(6)] free lo hi ab show ?thesis
      by (auto simp add: nullptr_def cell_0 cell_eq_iff)
  qed
  from cp show "prevIfFree m (cell a) = (if prev_free pre then cell (a - psize pre) else nullptr)"
  proof (cases rule: prev_cases)
    case none
    with bd show ?thesis
      by (simp add: prevIfFree_def field_cells InUse_flag)
  next
    case (used a0 s0 pre')
    with chunk_size(5) [OF l tg, of a0 s0 True] show ?thesis
      by (auto simp add: prevIfFree_def)
  next
    case (free a0 s0 pre')
    with chunk_size(5) [OF l tg, of a0 s0 False] chunk_size(4) [OF l tg, of a0 s0 False]
    show ?thesis
      by (auto simp add: prevIfFree_def cell_sub)
  qed
  from cp show "heap_rel (if prev_free pre then unlink m (cell (a - psize pre)) else m) this lo hi
           ?cs (drop_entry (prev_free pre) (a - psize pre, psize pre) fl)"
  proof (cases rule: prev_cases)
    case none
    with rel show ?thesis by (simp add: drop_entry_def)
  next
    case (used a0 s0 pre')
    with rel show ?thesis by (simp add: drop_entry_def)
  next
    case (free a0 s0 pre')
    from unlink_rel [OF rel full [OF free(3)]] free show ?thesis by (simp add: drop_entry_def)
  qed
  then have tg1: "tags_ok (if prev_free pre then unlink m (cell (a - psize pre)) else m) ?cs"
    by (simp add: heap_rel_def)
  assume pf: "prev_free pre"
  from cp show "size_Header (if prev_free pre then unlink m (cell (a - psize pre)) else m)
             (cell (a - psize pre)) = cell (psize pre)"
  proof (cases rule: prev_cases)
    case none
    with pf show ?thesis by simp
  next
    case (used a0 s0 pre')
    with pf show ?thesis by simp
  next
    case (free a0 s0 pre')
    with chunk_size(1) [OF l tg1, of a0 s0 False] show ?thesis by auto
  qed
qed

lemma prev_split:
  assumes "chain lo pre a"
  shows "\<exists>pm. pre = before_prev pre @ pm \<and> chain lo (before_prev pre) (a - psize pre) \<and>
    chain (a - psize pre) pm a \<and> set (frees pm) \<subseteq> {(a - psize pre, psize pre)} \<and>
    (prev_free pre \<longrightarrow> (a - psize pre, psize pre, False) \<in> set pre) \<and> psize pre \<le> a \<and>
    (prev_free pre \<longrightarrow> 32 \<le> psize pre)"
  using assms
proof (cases rule: prev_cases)
  case none
  with assms show ?thesis by (simp add: before_prev_def psize_def)
next
  case (used a0 s0 pre')
  with assms show ?thesis by (simp add: before_prev_def psize_def)
next
  case (free a0 s0 pre')
  with assms have "pre = before_prev pre @ [(a0, s0, False)] \<and> chain lo (before_prev pre) (a - psize pre) \<and>
    chain (a - psize pre) [(a0, s0, False)] a \<and> set (frees [(a0, s0, False)]) \<subseteq> {(a - psize pre, psize pre)} \<and>
    (prev_free pre \<longrightarrow> (a - psize pre, psize pre, False) \<in> set pre) \<and> psize pre \<le> a \<and>
    (prev_free pre \<longrightarrow> 32 \<le> psize pre)"
    by (auto simp add: chain_append)
  then show ?thesis by blast
qed

lemma next_split:
  assumes "chain e post hi"
  shows "\<exists>nm. post = nm @ after_next post \<and> chain e nm (e + nsize post) \<and>
    chain (e + nsize post) (after_next post) hi \<and> set (frees nm) \<subseteq> {(e, nsize post)} \<and>
    (next_free post \<longrightarrow> (e, nsize post, False) \<in> set post) \<and>
    (next_free post \<longrightarrow> 32 \<le> nsize post)"
  using assms
proof (cases rule: next_cases)
  case none
  with assms show ?thesis by (simp add: after_next_def nsize_def)
next
  case (used s2 post')
  with assms show ?thesis by (simp add: after_next_def nsize_def)
next
  case (free s2 post')
  with assms have "post = [(e, s2, False)] @ after_next post \<and> chain e [(e, s2, False)] (e + nsize post) \<and>
    chain (e + nsize post) (after_next post) hi \<and> set (frees [(e, s2, False)]) \<subseteq> {(e, nsize post)} \<and>
    (next_free post \<longrightarrow> (e, nsize post, False) \<in> set post) \<and>
    (next_free post \<longrightarrow> 32 \<le> nsize post)"
    by auto
  then show ?thesis by blast
qed

lemma set_drop_entry: "set (drop_entry b x fl) \<subseteq> set fl"
  using set_remove1_subset [of x fl] by (auto simp add: drop_entry_def)

lemma distinct_drop_entry: "distinct fl \<Longrightarrow> distinct (drop_entry b x fl)"
  by (simp add: drop_entry_def)

lemma in_drop_entry: "y \<in> set fl \<Longrightarrow> y \<noteq> x \<Longrightarrow> y \<in> set (drop_entry b x fl)"
  by (simp add: drop_entry_def)

lemma dropped_entry: "distinct fl \<Longrightarrow> b \<Longrightarrow> x \<notin> set (drop_entry b x fl)"
  by (simp add: drop_entry_def)

lemma deallocate_inv:
  assumes inv: "heap_inv m this lo hi (pre @ (a, s, True) # post) fl"
  shows "\<exists>m'. deallocate m this (cell (a + 16)) = Some m' \<and>
     heap_inv m' this lo hi
       (before_prev pre @ (a - psize pre, psize pre + s + nsize post, False) # after_next post)
       (ins (a - psize pre, psize pre + s + nsize post)
          (drop_entry (prev_free pre) (a - psize pre, psize pre)
             (drop_entry (next_free post) (a + s, nsize post) fl)))"
proof -
  let ?cs = "pre @ (a, s, True) # post"
  let ?fl1 = "drop_entry (next_free post) (a + s, nsize post) fl"
  let ?fl2 = "drop_entry (prev_free pre) (a - psize pre, psize pre) ?fl1"
  let ?a0 = "a - psize pre" and ?t = "psize pre + s + nsize post"
  from inv have rel: "heap_rel m this lo hi ?cs fl" and full: "set (frees ?cs) \<subseteq> set fl"
    by (simp_all add: heap_inv_def)
  from rel have ch: "chain lo ?cs hi" and d: "distinct fl"
    by (simp_all add: heap_rel_def layout_def)
  from ch obtain x where "chain lo pre x" "chain x ((a, s, True) # post) hi"
    by (auto simp add: chain_append)
  then have cpre: "chain lo pre a" and cpost: "chain (a + s) post hi"
    and s: "32 \<le> s" "16 dvd s" by auto
  from prev_split [OF cpre] obtain pm where pm: "pre = before_prev pre @ pm"
    "chain lo (before_prev pre) ?a0" "chain ?a0 pm a" "set (frees pm) \<subseteq> {(?a0, psize pre)}"
    "prev_free pre \<Longrightarrow> (?a0, psize pre, False) \<in> set pre" "psize pre \<le> a"
    "prev_free pre \<Longrightarrow> 32 \<le> psize pre"
    by blast
  from next_split [OF cpost] obtain nm where nm: "post = nm @ after_next post"
    "chain (a + s) nm (a + s + nsize post)" "chain (a + s + nsize post) (after_next post) hi"
    "set (frees nm) \<subseteq> {(a + s, nsize post)}"
    "next_free post \<Longrightarrow> (a + s, nsize post, False) \<in> set post"
    "next_free post \<Longrightarrow> 32 \<le> nsize post"
    by blast
  note N = dealloc_next_step [OF rel full]
  define m1 where "m1 = (if next_free post then unlink m (cell (a + s)) else m)"
  have in1: "(?a0, psize pre) \<in> set ?fl1" if "prev_free pre"
  proof -
    from pm(5) [OF that] full have "(?a0, psize pre) \<in> set fl"
      by (auto simp add: frees_mem)
    moreover have "(?a0, psize pre) \<noteq> (a + s, nsize post)"
      using s pm(6) by auto
    ultimately show ?thesis by (rule in_drop_entry)
  qed
  note P = dealloc_prev_step [OF N(4) in1]
  define m2 where "m2 = (if prev_free pre then unlink m1 (cell ?a0) else m1)"
  have rel2: "heap_rel m2 this lo hi ?cs ?fl2"
    unfolding m2_def m1_def by (rule P(3))
  let ?mid = "pm @ (a, s, True) # nm"
  have cs_eq: "?cs = before_prev pre @ ?mid @ after_next post"
    using pm(1) nm(1) by (metis append.assoc append_Cons)
  have cmid: "chain ?a0 ?mid (a + s + nsize post)"
    using pm(3) nm(2) s by (auto simp add: chain_append)
  have e0: "a + s + nsize post - ?a0 = ?t"
    using pm(6) by simp
  have d1: "distinct ?fl1" using d by (rule distinct_drop_entry)
  have sub2: "set ?fl2 \<subseteq> set (frees (before_prev pre @ after_next post))"
  proof
    fix y assume y: "y \<in> set ?fl2"
    then have y1: "y \<in> set ?fl1" using set_drop_entry by blast
    then have yfl: "y \<in> set fl" using set_drop_entry by blast
    from rel have "set fl \<subseteq> set (frees ?cs)" by (simp add: heap_rel_def)
    with yfl have "y \<in> set (frees (before_prev pre)) \<union> set (frees pm) \<union> set (frees nm)
        \<union> set (frees (after_next post))"
      by (subst (asm) cs_eq) auto
    moreover have "y \<notin> set (frees pm)"
    proof
      assume "y \<in> set (frees pm)"
      with pm(4) have yy: "y = (?a0, psize pre)" by auto
      then have "prev_free pre"
        using \<open>y \<in> set (frees pm)\<close> pm(1) by (auto simp add: before_prev_def split: if_splits)
      with y yy dropped_entry [OF d1] show False by blast
    qed
    moreover have "y \<notin> set (frees nm)"
    proof
      assume "y \<in> set (frees nm)"
      with nm(4) have yy: "y = (a + s, nsize post)" by auto
      then have "next_free post"
        using \<open>y \<in> set (frees nm)\<close> nm(1) by (auto simp add: after_next_def split: if_splits)
      with y1 yy dropped_entry [OF d] show False by blast
    qed
    ultimately show "y \<in> set (frees (before_prev pre @ after_next post))" by auto
  qed
  from retag_link [OF rel2 [unfolded cs_eq] pm(2) cmid _ sub2]
  obtain m' where m': "link (setSize_free m2 (cell ?a0) (cell ?t)) (cell ?a0) this = Some m'"
    "heap_rel m' this lo hi (before_prev pre @ (?a0, ?t, False) # after_next post)
       (ins (?a0, ?t) ?fl2)"
    by (auto simp add: e0)
  have full': "set (frees (before_prev pre @ (?a0, ?t, False) # after_next post))
      \<subseteq> set (ins (?a0, ?t) ?fl2)"
  proof
    fix y assume "y \<in> set (frees (before_prev pre @ (?a0, ?t, False) # after_next post))"
    then consider "y = (?a0, ?t)" | "y \<in> set (frees (before_prev pre))"
      | "y \<in> set (frees (after_next post))" by auto
    then show "y \<in> set (ins (?a0, ?t) ?fl2)"
    proof cases
      case 1
      then show ?thesis by simp
    next
      case 2
      obtain y1 y2 where yy: "y = (y1, y2)" by (cases y)
      with 2 have inp: "(y1, y2, False) \<in> set (before_prev pre)" by (simp add: frees_mem)
      from chain_bounds [OF pm(2) inp] have b: "y1 + y2 \<le> ?a0" "32 \<le> y2" by simp_all
      from inp pm(1) have "(y1, y2, False) \<in> set pre" by (metis Un_iff set_append)
      with full yy have "y \<in> set fl" by (auto simp add: frees_mem)
      moreover have "y \<noteq> (a + s, nsize post)" "y \<noteq> (?a0, psize pre)"
        using b yy pm(6) by auto
      ultimately show ?thesis by (simp add: in_drop_entry)
    next
      case 3
      obtain y1 y2 where yy: "y = (y1, y2)" by (cases y)
      with 3 have inp: "(y1, y2, False) \<in> set (after_next post)" by (simp add: frees_mem)
      from chain_bounds [OF nm(3) inp] have b: "a + s + nsize post \<le> y1" "32 \<le> y2" by simp_all
      from inp nm(1) have "(y1, y2, False) \<in> set post" by (metis Un_iff set_append)
      with full yy have "y \<in> set fl" by (auto simp add: frees_mem)
      moreover have "y \<noteq> (a + s, nsize post)" "y \<noteq> (?a0, psize pre)"
        using b yy pm(6,7) nm(6) s by (auto simp add: nsize_def psize_def split: if_splits)
      ultimately show ?thesis by (simp add: in_drop_entry)
    qed
  qed
  have dealloc: "deallocate m this (cell (a + 16)) =
      link (setSize_free m2 (cell ?a0) (cell ?t)) (cell ?a0) this"
  proof (cases "next_free post")
    case nf: True
    show ?thesis
    proof (cases "prev_free pre")
      case pf: True
      have "cell s + cell (nsize post) + cell (psize pre) = cell ?t"
        by (simp add: cell_add ac_simps)
      with nf pf N(1,2,3) N(5) [OF nf] P(1,2) P(4) [OF pf] show ?thesis
        by (simp add: deallocate_def Let_def field_cells m1_def m2_def)
    next
      case npf: False
      then have "psize pre = 0" by (simp add: psize_def)
      moreover have "cell s + cell (nsize post) = cell (s + nsize post)"
        by (simp add: cell_add)
      ultimately show ?thesis
        using nf npf N(1,2,3) N(5) [OF nf] P(1,2)
        by (simp add: deallocate_def Let_def field_cells m1_def m2_def)
    qed
  next
    case nnf: False
    then have n0: "nsize post = 0" by (simp add: nsize_def)
    show ?thesis
    proof (cases "prev_free pre")
      case pf: True
      have "cell s + cell (psize pre) = cell (psize pre + s)"
        by (simp add: cell_add ac_simps)
      with nnf pf n0 N(1,2,3) P(1,2) P(4) [OF pf] show ?thesis
        by (simp add: deallocate_def Let_def field_cells m1_def m2_def)
    next
      case npf: False
      then have "psize pre = 0" by (simp add: psize_def)
      with nnf npf n0 N(1,2,3) P(1,2) show ?thesis
        by (simp add: deallocate_def Let_def field_cells m1_def m2_def)
    qed
  qed
  with m' full' show ?thesis
    by (simp add: heap_inv_def)
qed

section \<open>The first fit and the constructor\<close>

text \<open>
  \<^verbatim>\<open>allocate\<close> at the first fit, when nothing fits, and the allocator the constructor
  builds on a region whose interior has room for a header: one free chunk.
\<close>

lemma allocate_at:
  assumes inv: "heap_inv m this lo hi (pre @ (a, s, False) # post) fl"
    and nd: "needed_size N = cell n" "32 \<le> n" "16 dvd n" "n < 2 ^ 64"
    and fit: "dropWhile (\<lambda>y. snd y < n) fl = (a, s) # rest"
  shows "\<exists>m'. allocate m this N = Some (cell (a + 16), m') \<and>
     (if 32 \<le> s - n
      then heap_inv m' this lo hi (pre @ (a, n, True) # (a + n, s - n, False) # post)
             (ins (a + n, s - n) (remove1 (a, s) fl))
      else heap_inv m' this lo hi (pre @ (a, s, True) # post) (remove1 (a, s) fl))"
proof -
  let ?cs = "pre @ (a, s, False) # post"
  from inv have rel: "heap_rel m this lo hi ?cs fl" and full: "set (frees ?cs) \<subseteq> set fl"
    by (simp_all add: heap_inv_def)
  from rel have ch: "chain lo ?cs hi" and d: "distinct fl"
    by (simp_all add: heap_rel_def layout_def)
  from fit have a: "(a, s) \<in> set fl"
    by (metis list.set_intros(1) set_dropWhileD)
  from fit have ns: "n \<le> s"
    by (metis hd_dropWhile list.distinct(1) list.sel(1) not_le snd_conv)
  from ch obtain x where c: "chain lo pre x" "chain x ((a, s, False) # post) hi"
    by (auto simp add: chain_append)
  then have cpre: "chain lo pre a" and cpost: "chain (a + s) post hi" and s: "32 \<le> s"
    by auto
  have others: "y \<in> set (remove1 (a, s) fl)" if "y \<in> set (frees pre) \<union> set (frees post)" for y
  proof -
    obtain y1 y2 where yy: "y = (y1, y2)" by (cases y)
    with that have "(y1, y2, False) \<in> set pre \<or> (y1, y2, False) \<in> set post"
      by (simp add: frees_mem)
    with chain_bounds [OF cpre, of y1 y2 False] chain_bounds [OF cpost, of y1 y2 False] s
    have "y \<noteq> (a, s)" using yy by auto
    moreover from that full have "y \<in> set fl" by auto
    ultimately show ?thesis by simp
  qed
  from allocate_chunk_rel [OF rel a nd(2,3) ns] obtain m' where
    m': "allocate_chunk m this (cell a) (cell n) = Some (cell (a + 16), m')"
    "if 32 \<le> s - n
      then heap_rel m' this lo hi (pre @ (a, n, True) # (a + n, s - n, False) # post)
             (ins (a + n, s - n) (remove1 (a, s) fl))
      else heap_rel m' this lo hi (pre @ (a, s, True) # post) (remove1 (a, s) fl)"
    by blast
  have "allocate m this N = Some (cell (a + 16), m')"
    by (simp add: allocate_fit [OF rel nd(1,4)] fit m'(1))
  with m'(2) others show ?thesis
    by (auto simp add: heap_inv_def)
qed

lemma allocate_none:
  assumes inv: "heap_inv m this lo hi cs fl"
    and nd: "needed_size N = cell n" "n < 2 ^ 64"
    and fit: "dropWhile (\<lambda>y. snd y < n) fl = []"
  shows "allocate m this N = Some (nullptr, m)"
proof -
  from inv have "heap_rel m this lo hi cs fl" by (simp add: heap_inv_def)
  from allocate_fit [OF this nd] fit show ?thesis by simp
qed

lemma dvd16_and_neg16: "16 dvd unat ((x :: 64 word) AND - 16)"
  by (simp add: unat_and_neg16 dvd_minus_mod)

lemma DlAllocator_inv:
  assumes lo: "16 < unat (aligned_begin b)"
    and sz: "unat (aligned_begin b) + 32 \<le> unat (aligned_end e)"
    and th: "unat this < unat (aligned_begin b) - 16 \<or> unat (aligned_end e) \<le> unat this"
  shows "\<exists>m'. DlAllocator m this b e = Some m' \<and>
     heap_inv m' this (unat (aligned_begin b) - 16) (unat (aligned_end e) - 16)
       [(unat (aligned_begin b) - 16, unat (aligned_end e) - unat (aligned_begin b), False)]
       [(unat (aligned_begin b) - 16, unat (aligned_end e) - unat (aligned_begin b))]"
proof -
  define B where "B = unat (aligned_begin b)"
  define E where "E = unat (aligned_end e)"
  define l where "l = B - 16"
  define h where "h = E - 16"
  define T where "T = E - B"
  have dv: "16 dvd B" "16 dvd E"
    by (simp_all add: B_def E_def aligned_begin_def aligned_end_def max_alignment_def dvd16_and_neg16)
  have bnd: "B < 2 ^ 64" "E < 2 ^ 64"
    unfolding B_def E_def by (rule unat_lt64)+
  have cb: "aligned_begin b = cell B" "aligned_end e = cell E"
    by (simp_all add: B_def E_def cell_unat)
  have ar: "16 < B" "B + 32 \<le> E" "l + 16 = B" "h + 16 = E" "l + T = h" "32 \<le> T" "0 < l"
    "h + 16 < 2 ^ 64"
    using lo sz bnd by (simp_all add: B_def [symmetric] E_def [symmetric] l_def h_def T_def)
  have dl: "16 dvd l" "16 dvd T"
    using dv ar by (simp_all add: l_def T_def dvd_diff_nat)
  then have ev: "even T" by (meson dvd_trans even_numeral)
  have th': "unat this < l \<or> h + 16 \<le> unat this"
    using th ar by (simp add: B_def [symmetric] E_def [symmetric] l_def)
  have lay: "layout l h [(l, T, False)] this"
    using ar dl th' by (simp add: layout_def)
  have nle: "\<not> cell E \<le> cell B"
    using ar bnd by (simp add: cell_le_iff)
  have hdr: "payloadToHeader (cell B) = cell l"
    using field_cells(6) [of l] ar by simp
  have diff: "cell E - cell B = cell T"
    using ar by (simp add: cell_sub T_def)
  define m3 where "m3 = (m(this := nullptr))(cell (l + 8) := tag T False, cell h := tag T False,
     cell l := InUse, cell (h + 8) := InUse)"
  have ne: "cell (l + 8) \<noteq> cell h" "cell (l + 8) \<noteq> cell l" "cell (l + 8) \<noteq> cell (h + 8)"
    "cell h \<noteq> cell l" "cell h \<noteq> cell (h + 8)" "cell l \<noteq> cell (h + 8)"
    using ar by (simp_all add: cell_eq_iff)
  have tn: "this \<noteq> cell (l + 8)" "this \<noteq> cell h" "this \<noteq> cell l" "this \<noteq> cell (h + 8)"
    using this_not_cell [OF lay] ar by simp_all
  have s1: "setSize_free (m(this := nullptr)) (cell l) (cell T) =
      (m(this := nullptr))(cell (l + 8) := tag T False, cell h := tag T False)"
    using setSize_free_cell [OF ev, of "m(this := nullptr)" l] ar by simp
  have nx: "next_Header ((m(this := nullptr))(cell (l + 8) := tag T False, cell h := tag T False,
      cell l := InUse)) (cell l) = cell h"
    using ne ev ar by (simp add: next_Header_def size_Header_def field_cells tag_size cell_add)
  have ctor: "DlAllocator m this b e = link m3 (cell l) this"
    using nle
    by (simp add: DlAllocator_def Let_def cb hdr diff s1 nx field_cells m3_def)
  have rel3: "heap_rel m3 this l h [(l, T, False)] []"
    using lay ne tn ar(5) by (simp add: heap_rel_def tags_ok_def m3_def)
  from link_rel [OF rel3, of l T] obtain m' where
    "link m3 (cell l) this = Some m'" "heap_rel m' this l h [(l, T, False)] [(l, T)]"
    by auto
  with ctor have "DlAllocator m this b e = Some m' \<and> heap_inv m' this l h [(l, T, False)] [(l, T)]"
    by (simp add: heap_inv_def)
  then show ?thesis
    unfolding l_def h_def T_def B_def E_def by blast
qed

section \<open>Two blocks from a fresh allocator\<close>

text \<open>
  A fresh allocator after two allocations holds the two used chunks and at most one free
  chunk behind them; freeing both in either order leaves the one free chunk of the fresh
  allocator.
\<close>

lemma heap_inv_single:
  assumes "heap_inv m this lo hi [(a, s, False)] fl"
  shows "fl = [(a, s)]" and "a = lo" and "a + s = hi"
proof -
  from assms have d: "distinct fl" and s1: "set fl \<subseteq> set (frees [(a, s, False)])"
    and s3: "set (frees [(a, s, False)]) \<subseteq> set fl" and l: "layout lo hi [(a, s, False)] this"
    by (simp_all only: heap_inv_def heap_rel_def)
  from s1 have s1: "set fl \<subseteq> {(a, s)}" by simp
  from s3 have s2: "(a, s) \<in> set fl" by simp
  from l have ch: "chain lo [(a, s, False)] hi" by (simp only: layout_def)
  from ch show "a = lo" "a + s = hi" by simp_all
  from s2 obtain x xs where fl: "fl = x # xs" by (cases fl) auto
  with s1 have x: "x = (a, s)" by simp
  have "xs = []"
  proof (cases xs)
    case (Cons y ys)
    with fl s1 have "y = (a, s)" by simp
    with d fl x Cons show ?thesis by simp
  qed simp
  with fl x show "fl = [(a, s)]" by simp
qed

lemma heap_inv_free_list:
  assumes "heap_inv m this lo hi cs fl"
  shows "free_list m (m this) (map (\<lambda>x. cell (fst x)) fl)"
proof -
  from assms have dl: "dlist m this (map fst fl)" and sub: "set fl \<subseteq> set (frees cs)"
    and l: "layout lo hi cs this"
    by (simp_all add: heap_inv_def heap_rel_def)
  have "\<forall>a\<in>set (map fst fl). cell a \<noteq> nullptr"
  proof
    fix a assume "a \<in> set (map fst fl)"
    then obtain s where "(a, s) \<in> set fl" by auto
    from free_chunk [OF l sub this] have "0 < a" "a < 2 ^ 64" by simp_all
    then have "unat (cell a) \<noteq> unat (cell 0)" by (simp add: unat_cell)
    then show "cell a \<noteq> nullptr"
      by (auto simp add: nullptr_def cell_0)
  qed
  from dlist_free_list [OF dl this] show ?thesis by (simp add: comp_def)
qed

lemma two_blocks:
  assumes inv0: "heap_inv m0 this l h [(l, T, False)] [(l, T)]"
    and NA: "unat NA + 31 < 2 ^ 64" and NB: "unat NB + 31 < 2 ^ 64"
    and A: "allocate m0 this NA = Some (pA, m1)" "pA \<noteq> nullptr"
    and B: "allocate m1 this NB = Some (pB, m2)" "pB \<noteq> nullptr"
  shows "\<exists>sB R. pA = cell (l + 16) \<and> pB = cell (l + needed_nat NA + 16) \<and>
     needed_nat NB \<le> sB \<and> needed_nat NA + sB \<le> T \<and>
     (R = [] \<or> R = [(l + needed_nat NA + sB, T - needed_nat NA - sB, False)]) \<and>
     heap_inv m2 this l h ((l, needed_nat NA, True) # (l + needed_nat NA, sB, True) # R) (frees R)"
proof -
  define nA where "nA = needed_nat NA"
  define nB where "nB = needed_nat NB"
  note ndA = needed_size_cell [OF NA, folded nA_def]
  note ndB = needed_size_cell [OF NB, folded nB_def]
  have fitA: "nA \<le> T"
  proof (rule ccontr)
    assume "\<not> nA \<le> T"
    then have "dropWhile (\<lambda>y. snd y < nA) [(l, T)] = []" by simp
    from allocate_none [OF inv0 ndA(1) ndA(4) this] A show False
      by simp
  qed
  then have dA: "dropWhile (\<lambda>y. snd y < nA) [(l, T)] = (l, T) # []" by simp
  from inv0 have inv0': "heap_inv m0 this l h ([] @ (l, T, False) # []) [(l, T)]" by simp
  from allocate_at [OF inv0' ndA(1-4) dA] A(1)
  have pA: "pA = cell (l + 16)"
    and r1: "if 32 \<le> T - nA
      then heap_inv m1 this l h [(l, nA, True), (l + nA, T - nA, False)] [(l + nA, T - nA)]
      else heap_inv m1 this l h [(l, T, True)] []"
    by (auto simp add: ins_Nil split: if_splits)
  have sp: "32 \<le> T - nA"
  proof (rule ccontr)
    assume n: "\<not> 32 \<le> T - nA"
    with r1 have i: "heap_inv m1 this l h [(l, T, True)] []" by simp
    have "dropWhile (\<lambda>y. snd y < nB) [] = []" by simp
    from allocate_none [OF i ndB(1) ndB(4) this] B show False by simp
  qed
  with r1 have inv1: "heap_inv m1 this l h ([(l, nA, True)] @ (l + nA, T - nA, False) # [])
      [(l + nA, T - nA)]"
    by simp
  have fitB: "nB \<le> T - nA"
  proof (rule ccontr)
    assume "\<not> nB \<le> T - nA"
    then have "dropWhile (\<lambda>y. snd y < nB) [(l + nA, T - nA)] = []" by simp
    from allocate_none [OF inv1 ndB(1) ndB(4) this] B show False by simp
  qed
  then have dB: "dropWhile (\<lambda>y. snd y < nB) [(l + nA, T - nA)] = (l + nA, T - nA) # []"
    by simp
  from allocate_at [OF inv1 ndB(1-4) dB] B(1)
  have pB: "pB = cell (l + nA + 16)"
    and r2: "if 32 \<le> T - nA - nB
      then heap_inv m2 this l h
             [(l, nA, True), (l + nA, nB, True), (l + nA + nB, T - nA - nB, False)]
             [(l + nA + nB, T - nA - nB)]
      else heap_inv m2 this l h [(l, nA, True), (l + nA, T - nA, True)] []"
    by (auto simp add: ins_Nil split: if_splits)
  show ?thesis
  proof (cases "32 \<le> T - nA - nB")
    case True
    with r2 fitA fitB pA pB show ?thesis
      unfolding nA_def [symmetric]
      by (intro exI [of _ nB] exI [of _ "[(l + nA + nB, T - nA - nB, False)]"])
         (simp add: nB_def)
  next
    case False
    with r2 fitA fitB pA pB show ?thesis
      unfolding nA_def [symmetric]
      by (intro exI [of _ "T - nA"] exI [of _ "[]"]) (simp add: nB_def)
  qed
qed

lemmas neighbour_defs = next_free_def prev_free_def nsize_def psize_def after_next_def
  before_prev_def drop_entry_def

lemma heap_inv_whole:
  assumes "heap_inv m this l h [(a, s, False)] fl"
  shows "heap_inv m this l h [(l, h - l, False)] [(l, h - l)]"
proof -
  from heap_inv_single [OF assms] have "fl = [(a, s)]" "a = l" "s = h - l" by auto
  with assms show ?thesis by simp
qed

lemma free_first_then_second:
  assumes inv: "heap_inv m2 this l h ((l, nA, True) # (l + nA, sB, True) # R) fl"
    and R: "R = [] \<or> R = [(l + nA + sB, r, False)]"
  shows "\<exists>m3 m4. deallocate m2 this (cell (l + 16)) = Some m3 \<and>
     deallocate m3 this (cell (l + nA + 16)) = Some m4 \<and>
     heap_inv m4 this l h [(l, h - l, False)] [(l, h - l)]"
proof -
  from inv have "heap_inv m2 this l h ([] @ (l, nA, True) # (l + nA, sB, True) # R) fl"
    by simp
  from deallocate_inv [OF this] obtain m3 fl3
    where d1: "deallocate m2 this (cell (l + 16)) = Some m3"
      and i3: "heap_inv m3 this l h ([(l, nA, False)] @ (l + nA, sB, True) # R) fl3"
    by (auto simp add: neighbour_defs)
  from deallocate_inv [OF i3] R obtain m4 fl4 a4 s4
    where d2: "deallocate m3 this (cell (l + nA + 16)) = Some m4"
      and i4: "heap_inv m4 this l h [(a4, s4, False)] fl4"
    by (auto simp add: neighbour_defs)
  from d1 d2 heap_inv_whole [OF i4] show ?thesis by simp
qed

lemma free_second_then_first:
  assumes inv: "heap_inv m2 this l h ((l, nA, True) # (l + nA, sB, True) # R) fl"
    and R: "R = [] \<or> R = [(l + nA + sB, r, False)]"
  shows "\<exists>m3 m4. deallocate m2 this (cell (l + nA + 16)) = Some m3 \<and>
     deallocate m3 this (cell (l + 16)) = Some m4 \<and>
     heap_inv m4 this l h [(l, h - l, False)] [(l, h - l)]"
proof -
  from inv have "heap_inv m2 this l h ([(l, nA, True)] @ (l + nA, sB, True) # R) fl"
    by simp
  from deallocate_inv [OF this] R obtain m3 fl3 s3
    where d1: "deallocate m2 this (cell (l + nA + 16)) = Some m3"
      and i3: "heap_inv m3 this l h ([] @ (l, nA, True) # [(l + nA, s3, False)]) fl3"
    by (auto simp add: neighbour_defs)
  from deallocate_inv [OF i3] obtain m4 fl4 a4 s4
    where d2: "deallocate m3 this (cell (l + 16)) = Some m4"
      and i4: "heap_inv m4 this l h [(a4, s4, False)] fl4"
    by (auto simp add: neighbour_defs)
  from d1 d2 heap_inv_whole [OF i4] show ?thesis by simp
qed

lemma needed_nat_le:
  assumes "16 dvd s" "32 \<le> s" "unat N + 16 \<le> s"
  shows "needed_nat N \<le> s"
proof -
  define k where "k = max (unat N) 16 + 31"
  have "k \<le> s + 15" using assms by (simp add: k_def max_def)
  then have "k div 16 \<le> (s + 15) div 16" by (rule div_le_mono)
  moreover from assms(1) obtain j where j: "s = 16 * j" by (auto simp add: dvd_def)
  then have "(s + 15) div 16 = j" by simp
  moreover have "k - k mod 16 = 16 * (k div 16)" by (simp add: minus_mod_eq_mult_div)
  ultimately have "k - k mod 16 \<le> s" using j by simp
  then show ?thesis by (simp add: needed_nat_def k_def)
qed

lemma heap_inv_chunk:
  assumes "heap_inv m this lo hi cs fl" "(a, s, u) \<in> set cs"
  shows "size_Header m (cell a) = cell s" and "32 \<le> s" and "16 dvd s" and "a + s \<le> hi"
    and "0 < a" and "hi + 16 < 2 ^ 64"
proof -
  from assms(1) have l: "layout lo hi cs this" and tg: "tags_ok m cs"
    by (simp_all add: heap_inv_def heap_rel_def)
  from chunk_size(1) [OF l tg assms(2)] show "size_Header m (cell a) = cell s" .
  from l have ch: "chain lo cs hi" and lo: "0 < lo" and hi: "hi + 16 < 2 ^ 64"
    by (simp_all add: layout_def)
  from chain_bounds [OF ch assms(2)] lo hi
  show "32 \<le> s" "16 dvd s" "a + s \<le> hi" "0 < a" "hi + 16 < 2 ^ 64" by simp_all
qed

lemma two_blocks_sizes:
  assumes inv: "heap_inv m2 this l h ((l, nA, True) # (l + nA, sB, True) # R) (frees R)"
    and R: "R = [] \<or> R = [(l + nA + sB, T - nA - sB, False)]"
    and T: "l + T = h"
  shows "size_Header m2 (cell l) = cell nA" and "size_Header m2 (cell (l + nA)) = cell sB"
    and "(if m2 this = nullptr then 0 else size_Header m2 (m2 this)) = cell (T - nA - sB)"
    and "32 \<le> nA" "16 dvd nA" "32 \<le> sB" "16 dvd sB" "nA + sB \<le> T" "h + 16 < 2 ^ 64"
proof -
  from heap_inv_chunk [OF inv, of l nA True]
  show a: "size_Header m2 (cell l) = cell nA" "32 \<le> nA" "16 dvd nA" "h + 16 < 2 ^ 64"
    by simp_all
  from heap_inv_chunk [OF inv, of "l + nA" sB True] T
  show b: "size_Header m2 (cell (l + nA)) = cell sB" "32 \<le> sB" "16 dvd sB" "nA + sB \<le> T"
    by simp_all
  from inv have dl: "dlist m2 this (map fst (frees R))"
    and ch: "chain l ((l, nA, True) # (l + nA, sB, True) # R) h"
    by (simp_all add: heap_inv_def heap_rel_def layout_def)
  from R show "(if m2 this = nullptr then 0 else size_Header m2 (m2 this)) = cell (T - nA - sB)"
  proof
    assume "R = []"
    with dl ch T have "m2 this = nullptr" "T - nA - sB = 0" by auto
    then show ?thesis by (simp add: cell_def)
  next
    assume r: "R = [(l + nA + sB, T - nA - sB, False)]"
    from heap_inv_chunk [OF inv, of "l + nA + sB" "T - nA - sB" False] r
    have s: "size_Header m2 (cell (l + nA + sB)) = cell (T - nA - sB)"
      and p: "0 < l + nA + sB" "l + nA + sB < 2 ^ 64"
      by simp_all
    from p have "unat (cell (l + nA + sB)) \<noteq> unat (cell 0)" by (simp add: unat_cell)
    then have "cell (l + nA + sB) \<noteq> nullptr" by (auto simp add: nullptr_def cell_def)
    with dl r s show ?thesis by simp
  qed
qed

lemma allocate_whole_region:
  assumes inv: "heap_inv m this l h [(l, T, False)] [(l, T)]"
    and T: "l + T = h"
    and s: "16 dvd s" "32 \<le> s" "s \<le> T"
    and N: "N \<le> cell s - 2 * sizeof_size_type"
  shows "\<exists>m'. allocate m this N = Some (cell (l + 16), m')"
proof -
  from heap_inv_chunk [OF inv, of l T False] T have h: "h + 16 < 2 ^ 64" "T \<le> h"
    by simp_all
  have "2 * sizeof_size_type = cell 16"
    by (simp add: sizeof_size_type_def cell_def)
  with s have "cell s - 2 * sizeof_size_type = cell (s - 16)"
    by (simp add: cell_sub)
  with N have "unat N \<le> unat (cell (s - 16))" by (simp add: word_le_nat_alt)
  with h s have n: "unat N + 16 \<le> s" by (simp add: unat_cell)
  with h s have N31: "unat N + 31 < 2 ^ 64" by simp
  note nd = needed_size_cell [OF N31]
  from needed_nat_le [OF s(1,2) n] s have "needed_nat N \<le> T" by simp
  then have d: "dropWhile (\<lambda>y. snd y < needed_nat N) [(l, T)] = (l, T) # []" by simp
  from inv have "heap_inv m this l h ([] @ (l, T, False) # []) [(l, T)]" by simp
  from allocate_at [OF this nd(1-4) d] show ?thesis by blast
qed

section \<open>Call sequences whose requests do not wrap\<close>

text \<open>
  On a region whose interior has room for a header, a sequence of calls in which no
  needed size wraps and every \<^verbatim>\<open>deallocate\<close> is given a live pointer returns and keeps
  the invariant.  Then every pointer returned is aligned and has at least the requested
  number of usable bytes, the chunk sizes add up to the interior, the free list is
  sorted, and an allocation that is freed and repeated on a fresh allocator returns the
  same address.  Each of the call sequences of section
  \<open>Requests whose needed size wraps\<close> contains a request whose needed size wraps.
\<close>

lemma useds_append: "useds (cs @ ds) = useds cs @ useds ds"
  by (induction cs rule: useds.induct) simp_all

lemma useds_mem: "a \<in> set (useds cs) \<longleftrightarrow> (\<exists>s. (a, s, True) \<in> set cs)"
  by (induction cs rule: useds.induct) auto

lemma useds_before_prev: "useds (before_prev pre) = useds pre"
  by (cases pre rule: rev_cases) (auto simp add: before_prev_def prev_free_def useds_append)

lemma useds_after_next: "useds (after_next post) = useds post"
  by (cases post) (auto simp add: after_next_def next_free_def)

lemma chain_distinct: "chain lo cs hi \<Longrightarrow> distinct (map fst cs)"
proof (induction cs arbitrary: lo)
  case Nil
  then show ?case by simp
next
  case (Cons c cs)
  obtain a s u where c: "c = (a, s, u)" by (cases c)
  with Cons.prems have ch: "chain (lo + s) cs hi" and s: "32 \<le> s" and a: "a = lo" by simp_all
  have "a \<notin> fst ` set cs"
  proof
    assume "a \<in> fst ` set cs"
    then obtain c' where c': "c' \<in> set cs" "fst c' = a" by blast
    obtain a' s' u' where "c' = (a', s', u')" by (cases c')
    with c' have "(a, s', u') \<in> set cs" by simp
    from chain_bounds [OF ch this] a s show False by simp
  qed
  with Cons.IH [OF ch] c show ?case by simp
qed

lemma payload_inj:
  assumes "heap_inv m this lo hi cs fl" "a \<in> set (useds cs)" "a' \<in> set (useds cs)"
    "cell (a + 16) = cell (a' + 16)"
  shows "a = a'"
proof -
  from assms(2) obtain s where s: "(a, s, True) \<in> set cs"
    by (auto simp add: useds_mem)
  from assms(3) obtain s' where s': "(a', s', True) \<in> set cs"
    by (auto simp add: useds_mem)
  from heap_inv_chunk(4,6) [OF assms(1) s] heap_inv_chunk(4,6) [OF assms(1) s']
  have "a + 16 < 2 ^ 64" "a' + 16 < 2 ^ 64"
    by simp_all
  with assms(4) show ?thesis by (simp add: cell_eq_iff)
qed

lemma live_ok_remove:
  assumes inv: "heap_inv m this lo hi (pre @ (a, s, True) # post) fl"
    and live: "live_ok (pre @ (a, s, True) # post) live"
    and us: "useds cs' = useds pre @ useds post"
  shows "live_ok cs' (remove1 (cell (a + 16)) live)"
proof -
  let ?cs = "pre @ (a, s, True) # post"
  from inv have "chain lo ?cs hi" by (simp add: heap_inv_def heap_rel_def layout_def)
  from chain_distinct [OF this] have na: "a \<notin> fst ` set pre" "a \<notin> fst ` set post"
    by auto
  have nu: "a \<notin> set (useds pre)" "a \<notin> set (useds post)"
    using na by (force simp add: useds_mem)+
  from live have d: "distinct live"
    and sl: "set live = (\<lambda>a. cell (a + 16)) ` set (useds ?cs)"
    by (simp_all add: live_ok_def)
  have "(\<lambda>a. cell (a + 16)) ` (set (useds pre) \<union> set (useds post))
      = (\<lambda>a. cell (a + 16)) ` set (useds ?cs) - {cell (a + 16)}"
  proof (intro set_eqI iffI)
    fix p assume "p \<in> (\<lambda>a. cell (a + 16)) ` (set (useds pre) \<union> set (useds post))"
    then obtain a' where a': "p = cell (a' + 16)" "a' \<in> set (useds pre) \<union> set (useds post)"
      by blast
    with nu have ne: "a' \<noteq> a" by blast
    from a' have in': "a' \<in> set (useds ?cs)" by (auto simp add: useds_append)
    have ina: "a \<in> set (useds ?cs)" by (simp add: useds_append)
    from payload_inj [OF inv in' ina] ne have "cell (a' + 16) \<noteq> cell (a + 16)" by blast
    with a'(1) in' show "p \<in> (\<lambda>a. cell (a + 16)) ` set (useds ?cs) - {cell (a + 16)}"
      by simp
  next
    fix p assume "p \<in> (\<lambda>a. cell (a + 16)) ` set (useds ?cs) - {cell (a + 16)}"
    then show "p \<in> (\<lambda>a. cell (a + 16)) ` (set (useds pre) \<union> set (useds post))"
      by (auto simp add: useds_append)
  qed
  with d sl us show ?thesis
    by (simp add: live_ok_def)
qed

lemma deallocate_step:
  assumes inv: "heap_inv m this lo hi cs fl" and live: "live_ok cs live" and p: "p \<in> set live"
  shows "\<exists>m' cs' fl'. deallocate m this p = Some m' \<and> heap_inv m' this lo hi cs' fl' \<and>
     live_ok cs' (remove1 p live)"
proof -
  from live p obtain a where a: "p = cell (a + 16)" "a \<in> set (useds cs)"
    by (auto simp add: live_ok_def)
  then obtain s where "(a, s, True) \<in> set cs" by (auto simp add: useds_mem)
  then obtain pre post where cs: "cs = pre @ (a, s, True) # post"
    by (auto dest: split_list)
  let ?cs' = "before_prev pre @ (a - psize pre, psize pre + s + nsize post, False)
      # after_next post"
  from deallocate_inv [OF inv [unfolded cs]] obtain m' where
    d: "deallocate m this (cell (a + 16)) = Some m'" and
    i: "heap_inv m' this lo hi ?cs'
       (ins (a - psize pre, psize pre + s + nsize post)
          (drop_entry (prev_free pre) (a - psize pre, psize pre)
             (drop_entry (next_free post) (a + s, nsize post) fl)))"
    by blast
  have "useds ?cs' = useds pre @ useds post"
    by (simp add: useds_append useds_before_prev useds_after_next)
  from live_ok_remove [OF inv [unfolded cs] live [unfolded cs] this] d i a(1)
  show ?thesis by blast
qed

lemma allocate_step:
  assumes inv: "heap_inv m this lo hi cs fl" and live: "live_ok cs live"
    and N: "unat N + 31 < 2 ^ 64"
  shows "\<exists>p m' cs' fl'. allocate m this N = Some (p, m') \<and> heap_inv m' this lo hi cs' fl' \<and>
     live_ok cs' (if p = nullptr then live else p # live) \<and>
     (p \<noteq> nullptr \<longrightarrow>
        (\<exists>a s. (a, s, True) \<in> set cs' \<and> p = cell (a + 16) \<and> unat N + 16 \<le> s))"
proof (cases "dropWhile (\<lambda>y. snd y < needed_nat N) fl")
  case Nil
  note nd = needed_size_cell [OF N]
  from allocate_none [OF inv nd(1,4) Nil] inv live show ?thesis by auto
next
  case (Cons x rest)
  obtain a s where x: "x = (a, s)" by (cases x)
  note nd = needed_size_cell [OF N]
  from Cons x have fit: "dropWhile (\<lambda>y. snd y < needed_nat N) fl = (a, s) # rest" by simp
  then have ns: "needed_nat N \<le> s"
    by (metis hd_dropWhile list.distinct(1) list.sel(1) not_le snd_conv)
  from fit have "(a, s) \<in> set fl"
    by (metis list.set_intros(1) set_dropWhileD)
  with inv have "(a, s, False) \<in> set cs"
    by (auto simp add: heap_inv_def heap_rel_def frees_mem)
  then obtain pre post where cs: "cs = pre @ (a, s, False) # post"
    by (auto dest: split_list)
  note inv' = inv [unfolded cs]
  from heap_inv_chunk(4,5,6) [OF inv', of a s False]
  have pa: "0 < a + 16" "a + 16 < 2 ^ 64" by simp_all
  then have "unat (cell (a + 16)) \<noteq> unat (cell 0)" by (simp add: unat_cell)
  then have nn: "cell (a + 16) \<noteq> nullptr" by (auto simp add: nullptr_def cell_def)
  from inv' have "chain lo (pre @ (a, s, False) # post) hi"
    by (simp add: heap_inv_def heap_rel_def layout_def)
  from chain_distinct [OF this] have na: "a \<notin> fst ` set pre" "a \<notin> fst ` set post"
    by auto
  have nu: "a \<notin> set (useds pre)" "a \<notin> set (useds post)"
    using na by (force simp add: useds_mem)+
  from live have d: "distinct live"
    and sl: "set live = (\<lambda>a. cell (a + 16)) ` (set (useds pre) \<union> set (useds post))"
    by (simp_all add: live_ok_def cs useds_append)
  from allocate_at [OF inv' nd(1-4) fit] obtain m' cs' fl' where
    al: "allocate m this N = Some (cell (a + 16), m')" and i: "heap_inv m' this lo hi cs' fl'"
    and us: "useds cs' = useds pre @ a # useds post"
    and ch: "\<exists>s'. (a, s', True) \<in> set cs' \<and> needed_nat N \<le> s'"
    using ns by (cases "32 \<le> s - needed_nat N") (fastforce simp add: useds_append)+
  have fresh: "cell (a + 16) \<notin> set live"
  proof
    assume "cell (a + 16) \<in> set live"
    with sl obtain a' where a': "cell (a + 16) = cell (a' + 16)"
      "a' \<in> set (useds pre) \<union> set (useds post)"
      by blast
    then have in': "a' \<in> set (useds cs')" by (auto simp add: us)
    have ina: "a \<in> set (useds cs')" by (simp add: us)
    from payload_inj [OF i ina in' a'(1)] a'(2) nu show False by blast
  qed
  have "live_ok cs' (cell (a + 16) # live)"
    using d sl fresh by (auto simp add: live_ok_def us)
  with al i nn ch nd(5) show ?thesis
    by (intro exI [of _ "cell (a + 16)"] exI [of _ m'] exI [of _ cs'] exI [of _ fl'])
       fastforce
qed

lemma chain_aligned:
  "chain lo cs hi \<Longrightarrow> 16 dvd lo \<Longrightarrow> (a, s, u) \<in> set cs \<Longrightarrow> 16 dvd a"
proof (induction cs arbitrary: lo)
  case Nil
  then show ?case by simp
next
  case (Cons c cs)
  obtain a' s' u' where c: "c = (a', s', u')" by (cases c)
  with Cons.prems have ch: "chain (lo + s') cs hi" and s: "16 dvd s'" and a: "a' = lo"
    by simp_all
  from Cons.prems(3) c consider "(a, s, u) = (a', s', u')" | "(a, s, u) \<in> set cs" by auto
  then show ?case
  proof cases
    case 1
    with a Cons.prems(2) show ?thesis by simp
  next
    case 2
    from Cons.prems(2) s have "16 dvd lo + s'" by simp
    from Cons.IH [OF ch this 2] show ?thesis .
  qed
qed

lemma heap_inv_payload:
  assumes inv: "heap_inv m this lo hi cs fl" and c: "(a, s, True) \<in> set cs"
  shows "16 dvd unat (cell (a + 16))" and "usable_bytes m (cell (a + 16)) = cell (s - 16)"
    and "unat (usable_bytes m (cell (a + 16))) = s - 16"
proof -
  from inv have l: "layout lo hi cs this" and tg: "tags_ok m cs"
    by (simp_all add: heap_inv_def heap_rel_def)
  from l have ch: "chain lo cs hi" and lo: "16 dvd lo" by (simp_all add: layout_def)
  note b = heap_inv_chunk [OF inv c]
  from chain_aligned [OF ch lo c] have "16 dvd a + 16" by simp
  moreover from b have lt: "a + 16 < 2 ^ 64" "s - 16 < 2 ^ 64" by simp_all
  ultimately show "16 dvd unat (cell (a + 16))" by (simp add: unat_cell)
  from chunk_size(3) [OF l tg c] b(2)
  show u: "usable_bytes m (cell (a + 16)) = cell (s - 16)"
    by (simp add: usable_bytes_def field_cells cell_sub)
  from lt show "unat (usable_bytes m (cell (a + 16))) = s - 16"
    by (simp only: u unat_cell)
qed

lemma allocate_step_pointer:
  assumes inv: "heap_inv m this lo hi cs fl" and live: "live_ok cs live"
    and N: "unat N + 31 < 2 ^ 64"
  shows "\<exists>p m' cs' fl'. allocate m this N = Some (p, m') \<and> heap_inv m' this lo hi cs' fl' \<and>
     live_ok cs' (if p = nullptr then live else p # live) \<and>
     (p \<noteq> nullptr \<longrightarrow> 16 dvd unat p \<and> unat N \<le> unat (usable_bytes m' p))"
proof -
  from allocate_step [OF inv live N] obtain p m' cs' fl' where
    al: "allocate m this N = Some (p, m')" and i: "heap_inv m' this lo hi cs' fl'"
    and lv: "live_ok cs' (if p = nullptr then live else p # live)"
    and p: "p \<noteq> nullptr \<longrightarrow>
        (\<exists>a s. (a, s, True) \<in> set cs' \<and> p = cell (a + 16) \<and> unat N + 16 \<le> s)"
    by blast
  have "p \<noteq> nullptr \<longrightarrow> 16 dvd unat p \<and> unat N \<le> unat (usable_bytes m' p)"
  proof
    assume "p \<noteq> nullptr"
    with p obtain a s where c: "(a, s, True) \<in> set cs'" "p = cell (a + 16)" "unat N + 16 \<le> s"
      by blast
    from heap_inv_payload(1,3) [OF i c(1)] c(2,3)
    show "16 dvd unat p \<and> unat N \<le> unat (usable_bytes m' p)" by simp
  qed
  with al i lv show ?thesis by blast
qed

lemma run_inv:
  assumes "heap_inv m this lo hi cs fl" "live_ok cs live" "requests_ok calls"
    "run m this live calls = Some (ps, m')"
  shows "\<exists>cs' fl'. heap_inv m' this lo hi cs' fl' \<and>
     (\<forall>p\<in>set ps. p \<noteq> nullptr \<longrightarrow> 16 dvd unat p)"
  using assms
proof (induction calls arbitrary: m live cs fl ps)
  case Nil
  then show ?case by auto
next
  case (Cons c calls)
  show ?case
  proof (cases c)
    case (Allocate N)
    with Cons.prems(3) have N: "unat N + 31 < 2 ^ 64" and ok: "requests_ok calls" by simp_all
    from allocate_step_pointer [OF Cons.prems(1,2) N] obtain p m1 cs1 fl1 where
      al: "allocate m this N = Some (p, m1)" and i: "heap_inv m1 this lo hi cs1 fl1"
      and lv: "live_ok cs1 (if p = nullptr then live else p # live)"
      and p: "p \<noteq> nullptr \<longrightarrow> 16 dvd unat p"
      by blast
    from Cons.prems(4) Allocate al obtain ps1 where
      r: "run m1 this (if p = nullptr then live else p # live) calls = Some (ps1, m')"
      and ps: "ps = p # ps1"
      by (auto split: option.splits)
    from Cons.IH [OF i lv ok r] p ps show ?thesis by auto
  next
    case (Deallocate p)
    with Cons.prems(3) have ok: "requests_ok calls" by simp
    from Cons.prems(4) Deallocate have pl: "p \<in> set live"
      by (auto split: if_splits)
    from deallocate_step [OF Cons.prems(1,2) pl] obtain m1 cs1 fl1 where
      d: "deallocate m this p = Some m1" and i: "heap_inv m1 this lo hi cs1 fl1"
      and lv: "live_ok cs1 (remove1 p live)"
      by blast
    from Cons.prems(4) Deallocate d pl have r: "run m1 this (remove1 p live) calls = Some (ps, m')"
      by simp
    from Cons.IH [OF i lv ok r] show ?thesis .
  qed
qed

lemma run_total:
  assumes "heap_inv m this lo hi cs fl" "live_ok cs live" "requests_ok calls"
    "frees_live m this live calls"
  shows "\<exists>ps m'. run m this live calls = Some (ps, m')"
  using assms
proof (induction calls arbitrary: m live cs fl)
  case Nil
  then show ?case by simp
next
  case (Cons c calls)
  show ?case
  proof (cases c)
    case (Allocate N)
    with Cons.prems(3) have N: "unat N + 31 < 2 ^ 64" and ok: "requests_ok calls" by simp_all
    from allocate_step [OF Cons.prems(1,2) N] obtain p m1 cs1 fl1 where
      al: "allocate m this N = Some (p, m1)" and i: "heap_inv m1 this lo hi cs1 fl1"
      and lv: "live_ok cs1 (if p = nullptr then live else p # live)"
      by blast
    from Cons.prems(4) Allocate al
    have "frees_live m1 this (if p = nullptr then live else p # live) calls" by simp
    from Cons.IH [OF i lv ok this] Allocate al show ?thesis by auto
  next
    case (Deallocate p)
    with Cons.prems(3) have ok: "requests_ok calls" by simp
    from Cons.prems(4) Deallocate have pl: "p \<in> set live" by simp
    from deallocate_step [OF Cons.prems(1,2) pl] obtain m1 cs1 fl1 where
      d: "deallocate m this p = Some m1" and i: "heap_inv m1 this lo hi cs1 fl1"
      and lv: "live_ok cs1 (remove1 p live)"
      by blast
    from Cons.prems(4) Deallocate d have "frees_live m1 this (remove1 p live) calls" by simp
    from Cons.IH [OF i lv ok this] Deallocate d pl show ?thesis by simp
  qed
qed

lemma chunk_sizes_chain:
  assumes "chain a cs hi" "hi < 2 ^ 64"
    "\<forall>c\<in>set cs. size_Header m (cell (fst c)) = cell (fst (snd c))"
  shows "chunk_sizes m (cell a) (cell hi) = Some (map (\<lambda>c. cell (fst (snd c))) cs)"
  using assms
proof (induction cs arbitrary: a)
  case Nil
  then show ?case by (simp add: chunk_sizes.simps)
next
  case (Cons c cs)
  obtain a' s u where c: "c = (a', s, u)" by (cases c)
  with Cons.prems have ch: "chain (a + s) cs hi" and s: "32 \<le> s" and a: "a' = a"
    and sz: "size_Header m (cell a) = cell s" by simp_all
  from chain_le [OF ch] Cons.prems(2) have b: "a + s \<le> hi" "a < 2 ^ 64" "s < 2 ^ 64" "a < hi"
    using s by simp_all
  from b Cons.prems(2) have ne: "cell a \<noteq> cell hi" by (simp add: cell_eq_iff)
  from b s have "unat (cell s) \<noteq> unat (cell 0)" by (simp add: unat_cell)
  then have s0: "cell s \<noteq> 0" by (auto simp add: cell_def)
  from b Cons.prems(2) have le: "\<not> unat (cell hi) < unat (cell a) + unat (cell s)"
    by (simp add: unat_cell)
  from Cons.IH [OF ch Cons.prems(2)] Cons.prems(3)
  have "chunk_sizes m (cell (a + s)) (cell hi) = Some (map (\<lambda>c. cell (fst (snd c))) cs)"
    by simp
  with ne s0 le sz c show ?case
    by (simp add: chunk_sizes.simps [of m "cell a"] Let_def cell_add)
qed

lemma chain_sum: "chain a cs hi \<Longrightarrow> a + sum_list (map (\<lambda>c. fst (snd c)) cs) = hi"
proof (induction cs arbitrary: a)
  case Nil
  then show ?case by simp
next
  case (Cons c cs)
  obtain a' s u where c: "c = (a', s, u)" by (cases c)
  with Cons.prems have "chain (a + s) cs hi" by simp
  from Cons.IH [OF this] c show ?case by (simp add: add.assoc)
qed

lemma heap_inv_conservation:
  assumes inv: "heap_inv m this lo hi cs fl"
  shows "chunk_sizes m (cell lo) (cell hi) = Some (map (\<lambda>c. cell (fst (snd c))) cs)"
    and "lo + sum_list (map (\<lambda>c. fst (snd c)) cs) = hi"
proof -
  from inv have ch: "chain lo cs hi" and hi: "hi + 16 < 2 ^ 64"
    by (simp_all add: heap_inv_def heap_rel_def layout_def)
  have "\<forall>c\<in>set cs. size_Header m (cell (fst c)) = cell (fst (snd c))"
  proof
    fix c assume c: "c \<in> set cs"
    obtain a s u where "c = (a, s, u)" by (cases c)
    with heap_inv_chunk(1) [OF inv, of a s u] c
    show "size_Header m (cell (fst c)) = cell (fst (snd c))" by simp
  qed
  with chunk_sizes_chain [OF ch] hi
  show "chunk_sizes m (cell lo) (cell hi) = Some (map (\<lambda>c. cell (fst (snd c))) cs)" by simp
  from chain_sum [OF ch] show "lo + sum_list (map (\<lambda>c. fst (snd c)) cs) = hi" .
qed

lemma heap_inv_sorted:
  assumes inv: "heap_inv m this lo hi cs fl"
  shows "free_list m (m this) (map (\<lambda>x. cell (fst x)) fl)"
    and "map (\<lambda>x. unat (size_Header m (cell (fst x)))) fl = map snd fl"
    and "sorted (map snd fl)"
proof -
  from heap_inv_free_list [OF inv] show "free_list m (m this) (map (\<lambda>x. cell (fst x)) fl)" .
  from inv show "sorted (map snd fl)" by (simp add: heap_inv_def heap_rel_def)
  from inv have sub: "set fl \<subseteq> set (frees cs)" by (simp add: heap_inv_def heap_rel_def)
  show "map (\<lambda>x. unat (size_Header m (cell (fst x)))) fl = map snd fl"
  proof (rule map_cong [OF refl])
    fix x assume x: "x \<in> set fl"
    obtain a s where xs: "x = (a, s)" by (cases x)
    with x sub have c: "(a, s, False) \<in> set cs" by (auto simp add: frees_mem)
    from heap_inv_chunk(1,4,6) [OF inv c] have "size_Header m (cell a) = cell s" "s < 2 ^ 64"
      by simp_all
    with xs show "unat (size_Header m (cell (fst x))) = snd x" by (simp add: unat_cell)
  qed
qed

lemma heap_inv_sizes_sum:
  assumes inv: "heap_inv m this lo hi cs fl"
  shows "sum_list (map unat (map (\<lambda>c. cell (fst (snd c))) cs)) = hi - lo"
proof -
  have eq: "map unat (map (\<lambda>c. cell (fst (snd c))) cs) = map (\<lambda>c. fst (snd c)) cs"
    unfolding map_map
  proof (rule map_cong [OF refl])
    fix c assume c: "c \<in> set cs"
    obtain a s u where cs: "c = (a, s, u)" by (cases c)
    with heap_inv_chunk(4,6) [OF inv, of a s u] c have "s < 2 ^ 64" by simp
    with cs show "(unat \<circ> (\<lambda>c. cell (fst (snd c)))) c = fst (snd c)"
      by (simp add: unat_cell)
  qed
  from heap_inv_conservation(2) [OF inv]
  have "sum_list (map (\<lambda>c. fst (snd c)) cs) = hi - lo" by simp
  then show ?thesis by (simp only: eq)
qed

lemma fresh_allocator_run:
  assumes lo: "16 < unat (aligned_begin b)"
    and sz: "unat (aligned_begin b) + 32 \<le> unat (aligned_end e)"
    and th: "unat this < unat (aligned_begin b) - 16 \<or> unat (aligned_end e) \<le> unat this"
    and ctor: "DlAllocator m this b e = Some m0"
    and ok: "requests_ok calls"
    and live: "frees_live m0 this [] calls"
  shows "\<exists>ps m' szs hs. run m0 this [] calls = Some (ps, m')
     \<and> (\<forall>p\<in>set ps. p \<noteq> nullptr \<longrightarrow> 16 dvd unat p)
     \<and> chunk_sizes m' (payloadToHeader (aligned_begin b)) (payloadToHeader (aligned_end e))
         = Some szs
     \<and> sum_list (map unat szs) = unat (aligned_end e) - unat (aligned_begin b)
     \<and> free_list m' (m' this) hs
     \<and> sorted (map (\<lambda>h. unat (size_Header m' h)) hs)"
proof -
  define l where "l = unat (aligned_begin b) - 16"
  define h where "h = unat (aligned_end e) - 16"
  define T where "T = unat (aligned_end e) - unat (aligned_begin b)"
  have ar: "l + 16 = unat (aligned_begin b)" "h + 16 = unat (aligned_end e)" "h - l = T"
    using lo sz by (simp_all add: l_def h_def T_def)
  from DlAllocator_inv [OF lo sz th, of m] ctor
  have inv0: "heap_inv m0 this l h [(l, T, False)] [(l, T)]"
    by (simp add: l_def h_def T_def)
  have lv0: "live_ok [(l, T, False)] []"
    by (simp add: live_ok_def)
  from run_total [OF inv0 lv0 ok live] obtain ps m' where
    r: "run m0 this [] calls = Some (ps, m')"
    by blast
  from run_inv [OF inv0 lv0 ok r] obtain cs fl where
    inv: "heap_inv m' this l h cs fl" and al: "\<forall>p\<in>set ps. p \<noteq> nullptr \<longrightarrow> 16 dvd unat p"
    by blast
  have hb: "payloadToHeader (aligned_begin b) = cell l"
    using field_cells(6) [of l] by (simp only: ar(1) cell_unat)
  have he: "payloadToHeader (aligned_end e) = cell h"
    using field_cells(6) [of h] by (simp only: ar(2) cell_unat)
  note cons = heap_inv_conservation(1) [OF inv, folded hb he]
  note sum = heap_inv_sizes_sum [OF inv, unfolded ar(3) T_def]
  note srt = heap_inv_sorted [OF inv]
  have "sorted (map (\<lambda>h. unat (size_Header m' h)) (map (\<lambda>x. cell (fst x)) fl))"
    by (simp only: map_map comp_def srt(2) srt(3))
  with r al cons sum srt(1) show ?thesis by blast
qed

lemma round_trip:
  assumes inv0: "heap_inv m0 this l h [(l, T, False)] [(l, T)]"
    and N: "unat N + 31 < 2 ^ 64"
    and A: "allocate m0 this N = Some (p, m1)" "p \<noteq> nullptr"
  shows "\<exists>m2 m3. deallocate m1 this p = Some m2 \<and> allocate m2 this N = Some (p, m3)"
proof -
  define n where "n = needed_nat N"
  note nd = needed_size_cell [OF N, folded n_def]
  have fit: "n \<le> T"
  proof (rule ccontr)
    assume "\<not> n \<le> T"
    then have "dropWhile (\<lambda>y. snd y < n) [(l, T)] = []" by simp
    from allocate_none [OF inv0 nd(1) nd(4) this] A show False
      by simp
  qed
  then have d: "dropWhile (\<lambda>y. snd y < n) [(l, T)] = (l, T) # []" by simp
  from inv0 have inv0': "heap_inv m0 this l h ([] @ (l, T, False) # []) [(l, T)]" by simp
  from heap_inv_single(2,3) [OF inv0] have T: "h - l = T" by simp
  from allocate_at [OF inv0' nd(1-4) d] A(1)
  have p: "p = cell (l + 16)"
    and r1: "if 32 \<le> T - n
      then heap_inv m1 this l h ([] @ (l, n, True) # [(l + n, T - n, False)]) [(l + n, T - n)]
      else heap_inv m1 this l h ([] @ (l, T, True) # []) []"
    by (auto simp add: ins_Nil split: if_splits)
  have "\<exists>m2 a2 s2 fl2. deallocate m1 this (cell (l + 16)) = Some m2 \<and>
      heap_inv m2 this l h [(a2, s2, False)] fl2"
  proof (cases "32 \<le> T - n")
    case True
    with r1 have "heap_inv m1 this l h ([] @ (l, n, True) # [(l + n, T - n, False)])
        [(l + n, T - n)]"
      by simp
    from deallocate_inv [OF this] show ?thesis
      by (auto simp add: neighbour_defs)
  next
    case False
    with r1 have "heap_inv m1 this l h ([] @ (l, T, True) # []) []" by simp
    from deallocate_inv [OF this] show ?thesis
      by (auto simp add: neighbour_defs)
  qed
  then obtain m2 a2 s2 fl2 where dl: "deallocate m1 this (cell (l + 16)) = Some m2"
    and i2: "heap_inv m2 this l h [(a2, s2, False)] fl2"
    by blast
  from heap_inv_whole [OF i2] T
  have "heap_inv m2 this l h ([] @ (l, T, False) # []) [(l, T)]" by simp
  from allocate_at [OF this nd(1-4) d] dl p show ?thesis by auto
qed

lemma fresh_round_trip:
  assumes lo: "16 < unat (aligned_begin b)"
    and sz: "unat (aligned_begin b) + 32 \<le> unat (aligned_end e)"
    and th: "unat this < unat (aligned_begin b) - 16 \<or> unat (aligned_end e) \<le> unat this"
    and ctor: "DlAllocator m this b e = Some m0"
    and N: "unat N + 31 < 2 ^ 64"
    and A: "allocate m0 this N = Some (p, m1)" "p \<noteq> nullptr"
  shows "\<exists>m2 m3. deallocate m1 this p = Some m2 \<and> allocate m2 this N = Some (p, m3)"
proof -
  from DlAllocator_inv [OF lo sz th, of m] ctor
  have "heap_inv m0 this (unat (aligned_begin b) - 16) (unat (aligned_end e) - 16)
       [(unat (aligned_begin b) - 16, unat (aligned_end e) - unat (aligned_begin b), False)]
       [(unat (aligned_begin b) - 16, unat (aligned_end e) - unat (aligned_begin b))]"
    by simp
  from round_trip [OF this N A] show ?thesis .
qed

section \<open>Splitting in allocate\<close>

text \<open>
  What \<^verbatim>\<open>allocate\<close> does with a fitting chunk when the needed size does not wrap:
  it unlinks it; when the size left over is at least \<^verbatim>\<open>sizeof(Header)\<close> the front part
  becomes a used chunk of the needed size and the rest a new free chunk that is inserted
  into the free list, and otherwise the whole chunk becomes used at its full size.
  Stated for a heap that satisfies the invariant, where \<open>(a, s)\<close> is the first entry of
  the free list that is not smaller than the needed size.  For every request the call is the body of the loop
  (\<open>allocate_chunk\<close>, lines 183 to 200) run on the chunk at \<open>a\<close>.  For a request whose
  needed size does not wrap the call returns the payload of that chunk, and the invariant
  holds again with the chunk split and the rest inserted in its sorted place in the free
  list, or with the chunk taken whole.
\<close>

lemma allocate_splits_or_takes_whole:
  assumes inv: "heap_inv m this lo hi (pre @ (a, s, False) # post) fl"
    and fit: "dropWhile (\<lambda>y. snd y < unat (needed_size N)) fl = (a, s) # rest"
  shows "allocate m this N = allocate_chunk m this (cell a) (needed_size N)
     \<and> size_Header m (cell a) = cell s
     \<and> (unat N + 31 < 2 ^ 64 \<longrightarrow>
          (\<exists>m'. allocate m this N = Some (toPayload (cell a), m')
             \<and> (if sizeof_Header \<le> cell s - needed_size N
                 then heap_inv m' this lo hi
                        (pre @ (a, unat (needed_size N), True)
                           # (a + unat (needed_size N), s - unat (needed_size N), False) # post)
                        (ins (a + unat (needed_size N), s - unat (needed_size N))
                           (remove1 (a, s) fl))
                 else heap_inv m' this lo hi (pre @ (a, s, True) # post) (remove1 (a, s) fl))))"
proof (intro conjI impI)
  from heap_inv_chunk [OF inv, of a s False]
  have sz: "size_Header m (cell a) = cell s" and s: "s < 2 ^ 64"
    by simp_all
  from sz show "size_Header m (cell a) = cell s" .
  from inv have rel: "heap_rel m this lo hi (pre @ (a, s, False) # post) fl"
    by (simp add: heap_inv_def)
  have "needed_size N = cell (unat (needed_size N))"
    by (simp only: cell_unat)
  from allocate_fit [OF rel this unat_lt64] fit
  show "allocate m this N = allocate_chunk m this (cell a) (needed_size N)"
    by (simp add: cell_unat)
  assume N: "unat N + 31 < 2 ^ 64"
  define n where "n = unat (needed_size N)"
  note nd = needed_size_cell [OF N]
  have n: "n = needed_nat N"
    using unat_cell [OF nd(4)] by (simp add: n_def nd(1))
  from fit have ns: "n \<le> s"
    unfolding n_def [symmetric]
    by (metis hd_dropWhile list.distinct(1) list.sel(1) not_le snd_conv)
  have "cell s - needed_size N = cell (s - n)"
    using ns by (simp add: nd(1) n cell_sub)
  with s have c: "(sizeof_Header \<le> cell s - needed_size N) = (32 \<le> s - needed_nat N)"
    by (simp add: sizeof_Header_cell cell_le_iff n)
  from allocate_at [OF inv nd(1-4) fit [unfolded n_def [symmetric] n]]
  show "\<exists>m'. allocate m this N = Some (toPayload (cell a), m')
     \<and> (if sizeof_Header \<le> cell s - needed_size N
         then heap_inv m' this lo hi
                (pre @ (a, unat (needed_size N), True)
                   # (a + unat (needed_size N), s - unat (needed_size N), False) # post)
                (ins (a + unat (needed_size N), s - unat (needed_size N)) (remove1 (a, s) fl))
         else heap_inv m' this lo hi (pre @ (a, s, True) # post) (remove1 (a, s) fl))"
    unfolding n_def [symmetric]
    by (simp only: c n field_cells)
qed

lemma allocate_splits_or_takes_whole_heap_e:
  "(\<exists>m'. allocate heap_e_0 4096 16 = Some (8208, m')
      \<and> heap_inv m' 4096 8192 8288 [(8192, 32, True), (8224, 64, False)] [(8224, 64)])
   \<and> (\<exists>m'. allocate heap_e_0 4096 64 = Some (8208, m')
      \<and> heap_inv m' 4096 8192 8288 [(8192, 96, True)] [])"
proof -
  have ab: "unat (aligned_begin 8192) = 8208" "unat (aligned_end 8320) = 8304"
    by (simp_all add: aligned_begin_def aligned_end_def sizeof_size_type_def max_alignment_def)
  have inv: "heap_inv heap_e_0 4096 8192 8288 ([] @ (8192, 96, False) # []) [(8192, 96)]"
    using DlAllocator_inv [of 8192 8320 4096 zero_memory]
    by (simp add: ab heap_e_0_constructed)
  have nd: "needed_size 16 = 32" "needed_size 64 = 80"
    by (simp_all add: needed_size_eq sizeof_size_type_def max_alignment_def
        minimum_alloc_size_def)
  have c: "cell 8192 = 8192" "toPayload 8192 = 8208" "sizeof_Header = 32" "cell 96 = 96"
    by (simp_all add: cell_def toPayload_def sizeof_Header_def sizeof_size_type_def)
  have sz: "size_Header heap_e_0 8192 = 96"
    by (simp add: eval_defs heap_e_0_def)
  from allocate_splits_or_takes_whole [OF inv, of 16 "[]", THEN conjunct2, THEN conjunct2]
       allocate_splits_or_takes_whole [OF inv, of 64 "[]", THEN conjunct2, THEN conjunct2]
  show ?thesis
    by (simp add: nd c sz ins_Nil)
qed

section \<open>Coalescing\<close>

text \<open>
  C5.  On a fresh allocator, after \<^verbatim>\<open>allocate\<close> has returned A and then B, freeing
  both is to leave one free chunk of size \<^verbatim>\<open>sizeOf(A) + sizeOf(B)\<close> exactly.  It does
  not when B was split from a larger chunk: over the 128 bytes from 8192 the interior has
  96 bytes, two requests of 16 bytes take the chunks at 8192 and 8224 of 32 bytes each,
  and after both are freed the single free chunk at 8192 has 96 bytes, since the second
  \<^verbatim>\<open>deallocate\<close> also merges the free rest behind B.
\<close>

theorem coalesced_chunk_exceeds_two_blocks:
  "DlAllocator zero_memory 4096 8192 8320 = Some heap_e_0
   \<and> allocate heap_e_0 4096 16 = Some (8208, heap_e_1)
   \<and> allocate heap_e_1 4096 16 = Some (8240, heap_e_2)
   \<and> (8240 :: addr) = 8208 + size_Header heap_e_2 (payloadToHeader 8208)
   \<and> size_Header heap_e_2 (payloadToHeader 8208) + size_Header heap_e_2 (payloadToHeader 8240)
       = 64
   \<and> deallocate heap_e_2 4096 8208 = Some heap_e_3
   \<and> deallocate heap_e_3 4096 8240 = Some heap_e_4
   \<and> free_list heap_e_4 (heap_e_4 4096) [8192]
   \<and> size_Header heap_e_4 8192 = 96"
  by (simp add: heap_e_0_constructed heap_e_1_step heap_e_2_step heap_e_3_step heap_e_4_step)
     (simp add: eval_defs heap_e_2_def heap_e_4_def)

text \<open>
  C5, amended.  The single free chunk is the whole interior of the region: its size is
  the sum of the sizes of A and B and of the free chunk that was left behind B, if
  any, so it equals \<^verbatim>\<open>sizeOf(A) + sizeOf(B)\<close> exactly when the free list was empty
  after the two allocations.  This holds in either order of the two calls of
  \<^verbatim>\<open>deallocate\<close>, for a region whose interior has room for a header, with
  \<^verbatim>\<open>m_freeList\<close> outside of it, and for two requests whose needed sizes do not wrap.
  B is the chunk behind A, and every following request of at most
  \<^verbatim>\<open>sizeOf(A) + sizeOf(B)\<close> less the two size words succeeds and returns A again.
\<close>

theorem coalescing_restores_region:
  assumes lo: "16 < unat (aligned_begin b)"
    and sz: "unat (aligned_begin b) + 32 \<le> unat (aligned_end e)"
    and th: "unat this < unat (aligned_begin b) - 16 \<or> unat (aligned_end e) \<le> unat this"
    and NA: "unat NA + 31 < 2 ^ 64" and NB: "unat NB + 31 < 2 ^ 64"
    and ctor: "DlAllocator m this b e = Some m0"
    and A: "allocate m0 this NA = Some (pA, m1)" "pA \<noteq> nullptr"
    and B: "allocate m1 this NB = Some (pB, m2)" "pB \<noteq> nullptr"
    and order: "(p, q) = (pA, pB) \<or> (p, q) = (pB, pA)"
    and N: "N \<le> size_Header m2 (payloadToHeader pA) + size_Header m2 (payloadToHeader pB)
                - 2 * sizeof_size_type"
  shows "\<exists>m3 m4 m5.
     pB = pA + size_Header m2 (payloadToHeader pA)
     \<and> deallocate m2 this p = Some m3
     \<and> deallocate m3 this q = Some m4
     \<and> free_list m4 (m4 this) [payloadToHeader (aligned_begin b)]
     \<and> size_Header m4 (payloadToHeader (aligned_begin b)) = aligned_end e - aligned_begin b
     \<and> aligned_end e - aligned_begin b =
         size_Header m2 (payloadToHeader pA) + size_Header m2 (payloadToHeader pB)
         + (if m2 this = nullptr then 0 else size_Header m2 (m2 this))
     \<and> allocate m4 this N = Some (pA, m5)"
proof -
  define l where "l = unat (aligned_begin b) - 16"
  define h where "h = unat (aligned_end e) - 16"
  define T where "T = unat (aligned_end e) - unat (aligned_begin b)"
  define nA where "nA = needed_nat NA"
  have ar: "l + 16 = unat (aligned_begin b)" "l + T = h" "h - l = T"
    "unat (aligned_begin b) \<le> unat (aligned_end e)"
    using lo sz by (simp_all add: l_def h_def T_def)
  from DlAllocator_inv [OF lo sz th, of m] ctor
  have inv0: "heap_inv m0 this l h [(l, T, False)] [(l, T)]"
    by (simp add: l_def h_def T_def)
  from two_blocks [OF inv0 NA NB A B] obtain sB R
    where pA: "pA = cell (l + 16)" and pB: "pB = cell (l + nA + 16)"
      and R: "R = [] \<or> R = [(l + nA + sB, T - nA - sB, False)]"
      and inv2: "heap_inv m2 this l h ((l, nA, True) # (l + nA, sB, True) # R) (frees R)"
    unfolding nA_def by blast
  note sizes = two_blocks_sizes [OF inv2 R ar(2)]
  have hA: "payloadToHeader pA = cell l" and hB: "payloadToHeader pB = cell (l + nA)"
    by (simp_all add: pA pB field_cells)
  have bg: "aligned_begin b = cell (l + 16)"
    by (simp only: ar(1) cell_unat)
  have hdr: "payloadToHeader (aligned_begin b) = cell l"
    by (simp add: bg field_cells)
  have diff: "aligned_end e - aligned_begin b = cell T"
    using cell_sub [OF ar(4)] by (simp add: cell_unat T_def)
  have adj: "pB = pA + size_Header m2 (payloadToHeader pA)"
    by (simp only: hA sizes(1)) (simp add: pA pB cell_add add_ac)
  have total: "aligned_end e - aligned_begin b =
      size_Header m2 (payloadToHeader pA) + size_Header m2 (payloadToHeader pB)
      + (if m2 this = nullptr then 0 else size_Header m2 (m2 this))"
    using sizes(8) by (simp only: hA hB sizes(1-3) diff cell_add) simp
  have "\<exists>m3 m4. deallocate m2 this p = Some m3 \<and> deallocate m3 this q = Some m4 \<and>
     heap_inv m4 this l h [(l, T, False)] [(l, T)]"
    using order free_first_then_second [OF inv2 R] free_second_then_first [OF inv2 R]
    by (auto simp add: pA pB ar(3))
  then obtain m3 m4 where d: "deallocate m2 this p = Some m3" "deallocate m3 this q = Some m4"
    and inv4: "heap_inv m4 this l h [(l, T, False)] [(l, T)]"
    by blast
  from heap_inv_free_list [OF inv4] have fl: "free_list m4 (m4 this) [cell l]"
    by simp
  from heap_inv_chunk(1) [OF inv4, of l T False] have s4: "size_Header m4 (cell l) = cell T"
    by simp
  have "16 dvd nA + sB" "32 \<le> nA + sB"
    using sizes(4-7) by simp_all
  moreover from N have "N \<le> cell (nA + sB) - 2 * sizeof_size_type"
    by (simp only: hA hB sizes(1,2) cell_add)
  ultimately obtain m5 where "allocate m4 this N = Some (pA, m5)"
    using allocate_whole_region [OF inv4 ar(2) _ _ sizes(8), of N] pA by blast
  with adj d fl s4 total show ?thesis
    by (simp only: hdr diff) blast
qed

theorem coalescing_restores_region_witness:
  "\<exists>m3 m4 m5. deallocate heap_e_2 4096 8240 = Some m3
     \<and> deallocate m3 4096 8208 = Some m4
     \<and> free_list m4 (m4 4096) [8192]
     \<and> size_Header m4 8192 = 96
     \<and> allocate m4 4096 48 = Some (8208, m5)"
proof -
  have ab: "aligned_begin 8192 = 8208" "aligned_end 8320 = 8304"
    by (simp_all add: aligned_begin_def aligned_end_def sizeof_size_type_def max_alignment_def)
  have sz: "payloadToHeader 8208 = 8192" "payloadToHeader 8240 = 8224"
    "size_Header heap_e_2 8192 = 32" "size_Header heap_e_2 8224 = 32"
    "heap_e_2 4096 = 8256" "size_Header heap_e_2 8256 = 32"
    by (simp_all add: eval_defs heap_e_2_def)
  from coalescing_restores_region [of 8192 8320 4096 16 16 zero_memory heap_e_0 8208 heap_e_1
      8240 heap_e_2 8240 8208 48]
  show ?thesis
    by (simp add: ab sz heap_e_0_constructed heap_e_1_step heap_e_2_step nullptr_def
        sizeof_size_type_def)
qed

end
